theory Spec2Isabelle
  imports Main
begin

section \<open>Python values\<close>

text \<open>
  The opaque state, the attachments and the dictionaries sent to the model endpoints
  are plain Python data. A dictionary is an association list in insertion order with
  distinct keys; \<open>PNone\<close> is Python's \<open>None\<close>.
\<close>

datatype pyval =
    PNone
  | PBool bool
  | PInt int
  | PStr string
  | PList "pyval list"
  | PDict "(string \<times> pyval) list"

datatype error =
    IndexError
  | KeyError string
  | AttributeError string
  | TypeError string
  | ValueError string
  | StageClosed
  | UpstreamError string

text \<open>Python truthiness, as \<open>if x:\<close> reads a value.\<close>

fun truthy :: "pyval \<Rightarrow> bool" where
  "truthy PNone = False"
| "truthy (PBool b) = b"
| "truthy (PInt i) = (i \<noteq> 0)"
| "truthy (PStr s) = (s \<noteq> [])"
| "truthy (PList xs) = (xs \<noteq> [])"
| "truthy (PDict kvs) = (kvs \<noteq> [])"

text \<open>\<open>d.get(k)\<close> on a dictionary: the value, or \<open>None\<close> for a missing key.\<close>

definition dict_get :: "(string \<times> pyval) list \<Rightarrow> string \<Rightarrow> pyval" where
  "dict_get d k = (case map_of d k of None \<Rightarrow> PNone | Some v \<Rightarrow> v)"

text \<open>\<open>x.get(k)\<close> on any value: only a dictionary has the method.\<close>

fun py_get :: "pyval \<Rightarrow> string \<Rightarrow> error + pyval" where
  "py_get (PDict d) k = Inr (dict_get d k)"
| "py_get _ k = Inl (AttributeError ''get'')"

text \<open>\<open>d[k]\<close>: a missing key raises.\<close>

definition dict_index :: "(string \<times> pyval) list \<Rightarrow> string \<Rightarrow> error + pyval" where
  "dict_index d k = (case map_of d k of None \<Rightarrow> Inl (KeyError k) | Some v \<Rightarrow> Inr v)"

text \<open>\<open>d[k] = v\<close>: an existing key keeps its place, a new key goes last.\<close>

fun dict_set :: "(string \<times> pyval) list \<Rightarrow> string \<Rightarrow> pyval \<Rightarrow> (string \<times> pyval) list" where
  "dict_set [] k v = [(k, v)]"
| "dict_set ((k', v') # d) k v = (if k' = k then (k, v) # d else (k', v') # dict_set d k v)"

text \<open>
  \<open>str(x)\<close> of an optional string, which is what \<open>StrictStr(x)\<close> and an f-string
  field compute: the string itself, and the text \<open>None\<close> for \<open>None\<close>.
\<close>

definition py_str :: "string option \<Rightarrow> string" where
  "py_str c = (case c of None \<Rightarrow> ''None'' | Some s \<Rightarrow> s)"

text \<open>\<open>str(n)\<close> of a natural number: its decimal digits.\<close>

definition digit_char :: "nat \<Rightarrow> char" where
  "digit_char d = ''0123456789'' ! d"

function str_nat :: "nat \<Rightarrow> string" where
  "str_nat n = (if n < 10 then [digit_char n] else str_nat (n div 10) @ [digit_char (n mod 10)])"
  by pat_completeness auto
termination
  by (relation "measure id") auto

text \<open>\<open>sep.join(xs)\<close>.\<close>

fun join :: "string \<Rightarrow> string list \<Rightarrow> string" where
  "join sep [] = []"
| "join sep [x] = x"
| "join sep (x # y # ys) = x @ sep @ join sep (y # ys)"

section \<open>Chat messages\<close>

datatype role = SYSTEM | USER | ASSISTANT | FUNCTION | TOOL

definition role_val :: "role \<Rightarrow> pyval" where
  "role_val r = PStr (case r of SYSTEM \<Rightarrow> ''system'' | USER \<Rightarrow> ''user''
     | ASSISTANT \<Rightarrow> ''assistant'' | FUNCTION \<Rightarrow> ''function'' | TOOL \<Rightarrow> ''tool'')"

text \<open>
  The side channel of a message. Stages and attachments are optional lists of
  structured payloads that the coordinator never inspects; \<open>state\<close> is the opaque
  state, \<open>PNone\<close> when the message has none. The other optional fields of a
  message and of its side channel (name, tool calls, form values) are read nowhere in
  the coordinator and are left out.
\<close>

record custom_content =
  stages :: "pyval list option"
  attachments :: "pyval list option"
  state :: pyval

record message =
  role :: role
  content :: "string option"
  custom_content :: "custom_content option"

record request =
  messages :: "message list"

text \<open>
  \<open>x.dict(exclude_none=True)\<close>: the fields that are not \<open>None\<close>, in declaration
  order. The opaque state is a plain value and is copied as it is.
\<close>

definition opt_item :: "string \<Rightarrow> pyval option \<Rightarrow> (string \<times> pyval) list" where
  "opt_item k v = (case v of None \<Rightarrow> [] | Some x \<Rightarrow> [(k, x)])"

definition custom_content_dict :: "custom_content \<Rightarrow> pyval" where
  "custom_content_dict cc = PDict
     (opt_item ''stages'' (map_option PList (stages cc)) @
      opt_item ''attachments'' (map_option PList (attachments cc)) @
      (if state cc = PNone then [] else [(''state'', state cc)]))"

definition message_dict :: "message \<Rightarrow> pyval" where
  "message_dict m = PDict
     ([(''role'', role_val (role m))] @
      opt_item ''content'' (map_option PStr (content m)) @
      opt_item ''custom_content'' (map_option custom_content_dict (custom_content m)))"

section \<open>The coordinator (agent.py)\<close>

subsection \<open>History transcription\<close>

text \<open>
  \<open>MASCoordinator.__prepare_messages\<close>. The system prompts live in a module that
  is not part of the sources, so the prompt is a parameter.
\<close>

definition transcribe :: "message \<Rightarrow> pyval" where
  "transcribe m =
     (if role m = USER \<and> custom_content m \<noteq> None
      then PDict [(''role'', role_val USER), (''content'', PStr (py_str (content m)))]
      else message_dict m)"

definition prepare_messages :: "request \<Rightarrow> string \<Rightarrow> pyval list" where
  "prepare_messages req system_prompt =
     PDict [(''role'', role_val SYSTEM), (''content'', PStr system_prompt)]
       # map transcribe (messages req)"

subsection \<open>Synthesis context and request\<close>

text \<open>The first half of \<open>MASCoordinator.__final_response\<close>.\<close>

definition context_block :: "nat \<times> message \<Rightarrow> string" where
  "context_block p =
     ''## CONTEXT '' @ str_nat (fst p + 1) @ '':\<newline> '' @ py_str (content (snd p))"

definition build_context :: "message list \<Rightarrow> string" where
  "build_context agent_messages =
     (if length agent_messages > 1
      then join ''\<newline>'' (map context_block (enumerate 0 agent_messages))
      else if length agent_messages = 1
      then ''## CONTEXT:\<newline> '' @ py_str (content (agent_messages ! 0))
      else ''No agent calls'')"

definition user_request_separator :: string where
  "user_request_separator = ''\<newline> ---\<newline> ## USER_REQUEST: \<newline> ''"

text \<open>
  The f-string field \<open>{messages[-1]["content"]}\<close>: the entry must exist, and it is
  formatted with \<open>str\<close>. Every content entry that \<open>prepare_messages\<close> writes is a
  string, which formats as itself.
\<close>

fun format_content :: "pyval \<Rightarrow> error + string" where
  "format_content (PStr s) = Inr s"
| "format_content PNone = Inr ''None''"
| "format_content _ = Inl (TypeError ''content is not text'')"

fun set_last_content :: "pyval list \<Rightarrow> string \<Rightarrow> error + pyval list" where
  "set_last_content [] ctx = Inl IndexError"
| "set_last_content [PDict d] ctx =
     (case dict_index d ''content'' of
        Inl e \<Rightarrow> Inl e
      | Inr old \<Rightarrow>
          (case format_content old of
             Inl e \<Rightarrow> Inl e
           | Inr txt \<Rightarrow>
               Inr [PDict (dict_set d ''content'' (PStr (ctx @ user_request_separator @ txt)))]))"
| "set_last_content [x] ctx = Inl (TypeError ''not subscriptable'')"
| "set_last_content (x # y # ys) ctx =
     (case set_last_content (y # ys) ctx of Inl e \<Rightarrow> Inl e | Inr r \<Rightarrow> Inr (x # r))"

definition synthesis_messages :: "request \<Rightarrow> string \<Rightarrow> message list \<Rightarrow> error + pyval list" where
  "synthesis_messages req system_prompt agent_messages =
     set_last_content (prepare_messages req system_prompt) (build_context agent_messages)"

subsection \<open>Merging the agents' side channels\<close>

text \<open>
  The second half of \<open>MASCoordinator.__final_response\<close>. The first message with a
  side channel is copied; every later one is appended to the copy with \<open>extend\<close>,
  which needs both lists to exist on both sides.
\<close>

definition extend_opt :: "string \<Rightarrow> pyval list option \<Rightarrow> pyval list option \<Rightarrow> error + pyval list" where
  "extend_opt field acc xs =
     (case acc of
        None \<Rightarrow> Inl (AttributeError field)
      | Some a \<Rightarrow> (case xs of None \<Rightarrow> Inl (TypeError field) | Some x \<Rightarrow> Inr (a @ x)))"

definition merge_step :: "custom_content option \<Rightarrow> message \<Rightarrow> error + custom_content option" where
  "merge_step acc msg =
     (case custom_content msg of
        None \<Rightarrow> Inr acc
      | Some cc \<Rightarrow>
          (case acc of
             None \<Rightarrow> Inr (Some cc)
           | Some a \<Rightarrow>
               (case extend_opt ''stages'' (stages a) (stages cc) of
                  Inl e \<Rightarrow> Inl e
                | Inr s \<Rightarrow>
                    (case extend_opt ''attachments'' (attachments a) (attachments cc) of
                       Inl e \<Rightarrow> Inl e
                     | Inr t \<Rightarrow> Inr (Some (a\<lparr>stages := Some s, attachments := Some t\<rparr>))))))"

fun merge_custom_content :: "custom_content option \<Rightarrow> message list \<Rightarrow> error + custom_content option" where
  "merge_custom_content acc [] = Inr acc"
| "merge_custom_content acc (m # ms) =
     (case merge_step acc m of Inl e \<Rightarrow> Inl e | Inr acc' \<Rightarrow> merge_custom_content acc' ms)"

definition final_message :: "string \<Rightarrow> message list \<Rightarrow> error + message" where
  "final_message text agent_messages =
     (case merge_custom_content None agent_messages of
        Inl e \<Rightarrow> Inl e
      | Inr cc \<Rightarrow> Inr \<lparr>role = ASSISTANT, content = Some text, custom_content = cc\<rparr>)"

subsection \<open>Dispatch\<close>

text \<open>
  Modelled from the spec: \<open>task.models.AgentName\<close> is not part of the sources. The
  spec names two variants, general-purpose and specialized-service, which the source
  calls \<open>GPA\<close> and \<open>UMS\<close>; \<open>OtherAgent\<close> stands for any further value, the one the
  \<open>else\<close> branch of the dispatch is written for, and carries the text that the
  f-string prints for it.
\<close>

datatype agent_name = GPA | UMS | OtherAgent string

record coordination_request =
  agent_name :: agent_name
  additional_instructions :: "string option"

section \<open>The progress sink\<close>

text \<open>
  The caller-visible response surface of one turn: an ordered list of progress
  sections (stages), the attachments and the exported state. A stage object is a
  reference, the position of the stage in the list.
\<close>

datatype stage_status = StageOpen | StageCompleted

record stage =
  stage_name :: "string option"
  stage_content :: string
  stage_attachments :: "pyval list"
  status :: stage_status

record choice =
  choice_stages :: "stage list"
  choice_attachments :: "pyval list"
  choice_state :: "pyval option"

definition is_open :: "choice \<Rightarrow> nat \<Rightarrow> bool" where
  "is_open ch r = (r < length (choice_stages ch) \<and> status (choice_stages ch ! r) = StageOpen)"

definition update_stage :: "choice \<Rightarrow> nat \<Rightarrow> (stage \<Rightarrow> stage) \<Rightarrow> choice" where
  "update_stage ch r f =
     (if r < length (choice_stages ch)
      then ch\<lparr>choice_stages := (choice_stages ch)[r := f (choice_stages ch ! r)]\<rparr>
      else ch)"

text \<open>
  Modelled from the spec: \<open>task.stage_util.StageProcessor.open_stage\<close> is not part of
  the sources. It opens a new caller-visible section with the given name, empty and
  open, at the end of the sequence, and returns it.
\<close>

definition open_stage :: "choice \<Rightarrow> string option \<Rightarrow> choice \<times> nat" where
  "open_stage ch name =
     (ch\<lparr>choice_stages := choice_stages ch @
          [\<lparr>stage_name = name, stage_content = [], stage_attachments = [], status = StageOpen\<rparr>]\<rparr>,
      length (choice_stages ch))"

text \<open>
  Modelled from the spec: \<open>task.stage_util.StageProcessor.close_stage_safely\<close> is not
  part of the sources. It closes the section; closing is idempotent and safe for a
  section that is closed already.
\<close>

definition close_stage_safely :: "choice \<Rightarrow> nat \<Rightarrow> choice" where
  "close_stage_safely ch r = update_stage ch r (\<lambda>s. s\<lparr>status := StageCompleted\<rparr>)"

text \<open>
  Modelled from the spec: the stage objects are not part of the sources. An open
  section appends the content it is given. A completed section receives no further
  content: what the late call does instead is the parameter \<open>strict\<close>, either it is
  rejected with an error (\<open>strict\<close>) or it is ignored.
\<close>

definition stage_append_content :: "bool \<Rightarrow> choice \<Rightarrow> nat \<Rightarrow> string \<Rightarrow> error + choice" where
  "stage_append_content strict ch r txt =
     (if is_open ch r
      then Inr (update_stage ch r (\<lambda>s. s\<lparr>stage_content := stage_content s @ txt\<rparr>))
      else if strict then Inl StageClosed else Inr ch)"

text \<open>
  Modelled from the spec: the stage objects are not part of the sources. An open
  section attaches the attachment it is given, after those it has; a completed section
  receives none, with \<open>strict\<close> as for the content.
\<close>

definition stage_add_attachment :: "bool \<Rightarrow> choice \<Rightarrow> nat \<Rightarrow> pyval \<Rightarrow> error + choice" where
  "stage_add_attachment strict ch r a =
     (if is_open ch r
      then Inr (update_stage ch r (\<lambda>s. s\<lparr>stage_attachments := stage_attachments s @ [a]\<rparr>))
      else if strict then Inl StageClosed else Inr ch)"

text \<open>
  The two calls on the response surface itself: an attachment is added after those
  that are there, and the exported state is set.
\<close>

definition choice_add_attachment :: "choice \<Rightarrow> pyval \<Rightarrow> choice" where
  "choice_add_attachment ch a = ch\<lparr>choice_attachments := choice_attachments ch @ [a]\<rparr>"

definition set_state :: "choice \<Rightarrow> pyval \<Rightarrow> choice" where
  "set_state ch s = ch\<lparr>choice_state := Some s\<rparr>"

section \<open>The general-purpose gateway (gpa.py)\<close>

subsection \<open>Outgoing messages\<close>

definition IS_GPA :: string where
  "IS_GPA = ''is_gpa''"

definition GPA_MESSAGES :: string where
  "GPA_MESSAGES = ''gpa_messages''"

text \<open>The state that \<open>GPAGateway.response\<close> exports: the wrapper around the inner state.\<close>

definition gpa_state :: "pyval \<Rightarrow> pyval" where
  "gpa_state inner = PDict [(IS_GPA, PBool True), (GPA_MESSAGES, inner)]"

text \<open>\<open>request.messages[i - 1]\<close>: at \<open>i = 0\<close> the index \<open>-1\<close> reads the last message.\<close>

definition previous_message :: "message list \<Rightarrow> nat \<Rightarrow> message" where
  "previous_message msgs i = (if i = 0 then last msgs else msgs ! (i - 1))"

text \<open>The body of the loop of \<open>GPAGateway.__prepare_gpa_messages\<close>, for message \<open>i\<close>.\<close>

definition restore_message :: "message list \<Rightarrow> nat \<Rightarrow> message \<Rightarrow> error + pyval list" where
  "restore_message msgs i msg =
     (if role msg = ASSISTANT
      then (case custom_content msg of
              None \<Rightarrow> Inr []
            | Some cc \<Rightarrow>
                if truthy (state cc)
                then (case py_get (state cc) IS_GPA of
                        Inl e \<Rightarrow> Inl e
                      | Inr flag \<Rightarrow>
                          if truthy flag
                          then (case py_get (state cc) GPA_MESSAGES of
                                  Inl e \<Rightarrow> Inl e
                                | Inr inner \<Rightarrow>
                                    Inr [message_dict (previous_message msgs i),
                                         message_dict (msg\<lparr>custom_content := Some (cc\<lparr>state := inner\<rparr>)\<rparr>)])
                          else Inr [])
                else Inr [])
      else Inr [])"

fun restore_history :: "message list \<Rightarrow> nat \<Rightarrow> message list \<Rightarrow> error + pyval list" where
  "restore_history msgs i [] = Inr []"
| "restore_history msgs i (m # ms) =
     (case restore_message msgs i m of
        Inl e \<Rightarrow> Inl e
      | Inr r \<Rightarrow> (case restore_history msgs (Suc i) ms of Inl e \<Rightarrow> Inl e | Inr rs \<Rightarrow> Inr (r @ rs)))"

definition instructions_given :: "string option \<Rightarrow> bool" where
  "instructions_given ai = (ai \<noteq> None \<and> ai \<noteq> Some [])"

definition last_user_entry :: "message \<Rightarrow> string option \<Rightarrow> pyval" where
  "last_user_entry last_user_msg ai =
     (if instructions_given ai
      then PDict [(''role'', role_val USER),
                  (''content'', PStr (py_str (content last_user_msg) @ ''\<newline>\<newline>'' @ py_str ai)),
                  (''custom_content'',
                     (case custom_content last_user_msg of
                        None \<Rightarrow> PNone
                      | Some cc \<Rightarrow> custom_content_dict cc))]
      else message_dict last_user_msg)"

definition prepare_gpa_messages :: "request \<Rightarrow> string option \<Rightarrow> error + pyval list" where
  "prepare_gpa_messages req ai =
     (case restore_history (messages req) 0 (messages req) of
        Inl e \<Rightarrow> Inl e
      | Inr res \<Rightarrow>
          if messages req = [] then Inl IndexError
          else Inr (res @ [last_user_entry (last (messages req)) ai]))"

subsection \<open>The streamed reply\<close>

text \<open>
  One fragment of the upstream stream. A nested-section update names the section by
  its index; its other entries are optional. A fragment holds a list of choices, of
  which the loop reads the first; the delta of a choice may be missing.
\<close>

record stage_update =
  su_index :: int
  su_name :: "string option"
  su_content :: "string option"
  su_attachments :: "pyval list option"
  su_status :: "string option"

record delta_custom_content =
  dcc_attachments :: "pyval list option"
  dcc_state :: pyval
  dcc_stages :: "stage_update list option"

record delta =
  delta_content :: "string option"
  delta_custom_content :: "delta_custom_content option"

record chunk =
  chunk_choices :: "delta option list"

text \<open>Truthiness of an optional string or list: present and not empty.\<close>

definition given :: "'a list option \<Rightarrow> bool" where
  "given x = (x \<noteq> None \<and> x \<noteq> Some [])"

definition items :: "'a list option \<Rightarrow> 'a list" where
  "items x = (case x of None \<Rightarrow> [] | Some xs \<Rightarrow> xs)"

text \<open>
  What the loop of \<open>GPAGateway.response\<close> accumulates: the text, the attachments and
  the state of \<open>result_custom_content\<close>, the map from section index to opened
  stage, and the caller-visible surface that the stage calls change.
\<close>

record aggregation =
  agg_content :: string
  agg_attachments :: "pyval list"
  agg_state :: pyval
  stages_map :: "(int \<times> nat) list"
  agg_choice :: choice

fun add_attachments :: "bool \<Rightarrow> choice \<Rightarrow> nat \<Rightarrow> pyval list \<Rightarrow> error + choice" where
  "add_attachments strict ch r [] = Inr ch"
| "add_attachments strict ch r (a # as) =
     (case stage_add_attachment strict ch r a of
        Inl e \<Rightarrow> Inl e
      | Inr ch' \<Rightarrow> add_attachments strict ch' r as)"

text \<open>The body of the loop over the nested-section updates of one fragment.\<close>

definition apply_stage_update ::
  "bool \<Rightarrow> (int \<times> nat) list \<times> choice \<Rightarrow> stage_update \<Rightarrow> error + (int \<times> nat) list \<times> choice" where
  "apply_stage_update strict st stg =
     (case map_of (fst st) (su_index stg) of
        Some opened_stg \<Rightarrow>
          if given (su_content stg)
          then (case stage_append_content strict (snd st) opened_stg (items (su_content stg)) of
                  Inl e \<Rightarrow> Inl e
                | Inr ch \<Rightarrow> Inr (fst st, ch))
          else if given (su_attachments stg)
          then (case add_attachments strict (snd st) opened_stg (items (su_attachments stg)) of
                  Inl e \<Rightarrow> Inl e
                | Inr ch \<Rightarrow> Inr (fst st, ch))
          else if su_status stg = Some ''completed''
          then Inr (fst st, close_stage_safely (snd st) opened_stg)
          else Inr st
      | None \<Rightarrow>
          Inr (fst st @ [(su_index stg, snd (open_stage (snd st) (su_name stg)))],
               fst (open_stage (snd st) (su_name stg))))"

fun apply_stage_updates ::
  "bool \<Rightarrow> (int \<times> nat) list \<times> choice \<Rightarrow> stage_update list \<Rightarrow> error + (int \<times> nat) list \<times> choice" where
  "apply_stage_updates strict st [] = Inr st"
| "apply_stage_updates strict st (u # us) =
     (case apply_stage_update strict st u of
        Inl e \<Rightarrow> Inl e
      | Inr st' \<Rightarrow> apply_stage_updates strict st' us)"

definition forward_content :: "bool \<Rightarrow> nat \<Rightarrow> aggregation \<Rightarrow> delta \<Rightarrow> error + aggregation" where
  "forward_content strict stg agg d =
     (if given (delta_content d)
      then (case stage_append_content strict (agg_choice agg) stg (items (delta_content d)) of
              Inl e \<Rightarrow> Inl e
            | Inr ch \<Rightarrow>
                Inr (agg\<lparr>agg_content := agg_content agg @ items (delta_content d),
                         agg_choice := ch\<rparr>))
      else Inr agg)"

definition collect_custom_content ::
  "bool \<Rightarrow> aggregation \<Rightarrow> delta_custom_content \<Rightarrow> error + aggregation" where
  "collect_custom_content strict agg cc =
     (let agg1 = (if given (dcc_attachments cc)
                  then agg\<lparr>agg_attachments := agg_attachments agg @ items (dcc_attachments cc)\<rparr>
                  else agg);
          agg2 = (if truthy (dcc_state cc) then agg1\<lparr>agg_state := dcc_state cc\<rparr> else agg1)
      in if given (dcc_stages cc)
         then (case apply_stage_updates strict (stages_map agg2, agg_choice agg2)
                      (items (dcc_stages cc)) of
                 Inl e \<Rightarrow> Inl e
               | Inr st \<Rightarrow> Inr (agg2\<lparr>stages_map := fst st, agg_choice := snd st\<rparr>))
         else Inr agg2)"

text \<open>
  The body of the loop over the fragments. A missing delta passes the guarded test of
  its content and then fails at \<open>delta.custom_content\<close>.
\<close>

definition process_chunk :: "bool \<Rightarrow> nat \<Rightarrow> aggregation \<Rightarrow> chunk \<Rightarrow> error + aggregation" where
  "process_chunk strict stg agg c =
     (case chunk_choices c of
        [] \<Rightarrow> Inr agg
      | first # rest \<Rightarrow>
          (case first of
             None \<Rightarrow> Inl (AttributeError ''custom_content'')
           | Some d \<Rightarrow>
               (case forward_content strict stg agg d of
                  Inl e \<Rightarrow> Inl e
                | Inr agg' \<Rightarrow>
                    (case delta_custom_content d of
                       None \<Rightarrow> Inr agg'
                     | Some cc \<Rightarrow> collect_custom_content strict agg' cc))))"

fun read_chunks :: "bool \<Rightarrow> nat \<Rightarrow> aggregation \<Rightarrow> chunk list \<Rightarrow> error + aggregation" where
  "read_chunks strict stg agg [] = Inr agg"
| "read_chunks strict stg agg (c # cs) =
     (case process_chunk strict stg agg c of
        Inl e \<Rightarrow> Inl e
      | Inr agg' \<Rightarrow> read_chunks strict stg agg' cs)"

definition initial_aggregation :: "choice \<Rightarrow> aggregation" where
  "initial_aggregation ch =
     \<lparr>agg_content = [], agg_attachments = [], agg_state = PNone, stages_map = [], agg_choice = ch\<rparr>"

text \<open>After the loop: every stage of the map is closed.\<close>

definition close_all :: "(int \<times> nat) list \<Rightarrow> choice \<Rightarrow> choice" where
  "close_all smap ch = fold (\<lambda>r c. close_stage_safely c r) (map snd smap) ch"

text \<open>
  The end of \<open>GPAGateway.response\<close>, after the loop: the stages of the map are
  closed, the collected attachments are added to the response surface as they are, the
  wrapped state is exported, and the accumulated text is returned as an assistant
  message without a side channel.
\<close>

definition finish :: "aggregation \<Rightarrow> message \<times> choice" where
  "finish agg =
     (\<lparr>role = ASSISTANT, content = Some (agg_content agg), custom_content = None\<rparr>,
      set_state
        (fold (\<lambda>a c. choice_add_attachment c a) (agg_attachments agg)
           (close_all (stages_map agg) (agg_choice agg)))
        (gpa_state (agg_state agg)))"

text \<open>
  \<open>GPAGateway.response\<close>. The call to the agent's endpoint is the parameter
  \<open>create\<close>: from the outgoing messages to the fragments of the reply, a finite
  list, or a failure of the call. \<open>stg\<close> is the stage that the coordinator opened
  for this agent call. The result is the returned message and the surface after the
  call; an exception anywhere is the error it raises.
\<close>

definition response ::
  "bool \<Rightarrow> (pyval list \<Rightarrow> error + chunk list) \<Rightarrow> choice \<Rightarrow> nat \<Rightarrow> request \<Rightarrow> string option
     \<Rightarrow> error + message \<times> choice" where
  "response strict create ch stg req ai =
     (case prepare_gpa_messages req ai of
        Inl e \<Rightarrow> Inl e
      | Inr msgs \<Rightarrow>
          (case create msgs of
             Inl e \<Rightarrow> Inl e
           | Inr chunks \<Rightarrow>
               (case read_chunks strict stg (initial_aggregation ch) chunks of
                  Inl e \<Rightarrow> Inl e
                | Inr agg \<Rightarrow> Inr (finish agg))))"

subsection \<open>Dispatch to a gateway\<close>

text \<open>
  \<open>MASCoordinator.__handle_coordination_request\<close>. The gateway of the specialized
  service is not part of the sources and is the parameter \<open>ums_response\<close>.
\<close>

definition handle_coordination_request ::
  "bool \<Rightarrow> (pyval list \<Rightarrow> error + chunk list)
     \<Rightarrow> (choice \<Rightarrow> nat \<Rightarrow> request \<Rightarrow> string option \<Rightarrow> error + message \<times> choice)
     \<Rightarrow> coordination_request \<Rightarrow> choice \<Rightarrow> nat \<Rightarrow> request \<Rightarrow> error + message \<times> choice" where
  "handle_coordination_request strict create ums_response coordination_request ch stg req =
     (case agent_name coordination_request of
        GPA \<Rightarrow> response strict create ch stg req (additional_instructions coordination_request)
      | UMS \<Rightarrow> ums_response ch stg req (additional_instructions coordination_request)
      | OtherAgent n \<Rightarrow> Inl (ValueError (''Agent Name '' @ n @ '' is unknown'')))"

section \<open>Auxiliary definitions for the statements\<close>

text \<open>The number that a string of decimal digits denotes, to read \<open>str_nat\<close> back.\<close>

fun digits_value :: "string \<Rightarrow> nat" where
  "digits_value [] = 0"
| "digits_value cs = 10 * digits_value (butlast cs) + (of_char (last cs) - 48)"

text \<open>The stages and the attachments of an optional side channel, as plain lists.\<close>

definition side_stages :: "custom_content option \<Rightarrow> pyval list" where
  "side_stages c = (case c of None \<Rightarrow> [] | Some cc \<Rightarrow> items (stages cc))"

definition side_attachments :: "custom_content option \<Rightarrow> pyval list" where
  "side_attachments c = (case c of None \<Rightarrow> [] | Some cc \<Rightarrow> items (attachments cc))"

text \<open>
  The invariant of the loop over the fragments: the indices of the map are distinct,
  and the stages it refers to are exactly the stages opened since the call began, in
  the order of their opening (\<open>n0\<close> is the number of stages before the call).
\<close>

definition map_inv :: "nat \<Rightarrow> (int \<times> nat) list \<Rightarrow> choice \<Rightarrow> bool" where
  "map_inv n0 smap ch =
     (distinct (map fst smap) \<and> n0 \<le> length (choice_stages ch)
      \<and> map snd smap = [n0..<length (choice_stages ch)])"

text \<open>The text that the loop reads from a fragment: the content of the delta of its first choice.\<close>

definition chunk_text :: "chunk \<Rightarrow> string" where
  "chunk_text c =
     (case chunk_choices c of
        [] \<Rightarrow> []
      | first # rest \<Rightarrow> (case first of None \<Rightarrow> [] | Some d \<Rightarrow> items (delta_content d)))"

text \<open>A fragment whose first choice, if it has one, has a delta.\<close>

definition well_formed :: "chunk \<Rightarrow> bool" where
  "well_formed c = (case chunk_choices c of [] \<Rightarrow> True | first # rest \<Rightarrow> first \<noteq> None)"

text \<open>
  The opaque state of an outgoing message dictionary: its \<open>custom_content\<close> entry's
  \<open>state\<close> entry, read with \<open>get\<close> (\<open>None\<close> when an entry is missing).
\<close>

definition entry_state :: "pyval \<Rightarrow> pyval" where
  "entry_state e =
     (case e of
        PDict d \<Rightarrow> (case dict_get d ''custom_content'' of
                      PDict c \<Rightarrow> dict_get c ''state''
                    | _ \<Rightarrow> PNone)
      | _ \<Rightarrow> PNone)"

text \<open>
  A worked example: a surface with the stage of the agent call open, a history whose
  assistant message carries a state exported by the general-purpose gateway, and a
  stream of two fragments, the second of which opens a nested section and never
  completes it.
\<close>

definition example_choice :: choice where
  "example_choice =
     \<lparr>choice_stages = [\<lparr>stage_name = Some ''Call GPA Agent'', stage_content = [],
                         stage_attachments = [], status = StageOpen\<rparr>],
      choice_attachments = [], choice_state = None\<rparr>"

definition example_request :: request where
  "example_request =
     \<lparr>messages = [\<lparr>role = USER, content = Some ''q0'', custom_content = None\<rparr>,
                  \<lparr>role = ASSISTANT, content = Some ''a0'',
                   custom_content = Some \<lparr>stages = None, attachments = None,
                                           state = gpa_state (PInt 1)\<rparr>\<rparr>,
                  \<lparr>role = USER, content = Some ''q1'', custom_content = None\<rparr>]\<rparr>"

definition example_stream :: "chunk list" where
  "example_stream =
     [\<lparr>chunk_choices = [Some \<lparr>delta_content = Some ''Hel'', delta_custom_content = None\<rparr>]\<rparr>,
      \<lparr>chunk_choices = [Some \<lparr>delta_content = Some ''lo'',
          delta_custom_content = Some \<lparr>dcc_attachments = None, dcc_state = PInt 2,
            dcc_stages = Some [\<lparr>su_index = 0, su_name = Some ''Searching'', su_content = None,
                                su_attachments = None, su_status = None\<rparr>]\<rparr>\<rparr>]\<rparr>]"

text \<open>What the general-purpose gateway returns in the worked example.\<close>

definition example_result :: "message \<times> choice" where
  "example_result =
     (\<lparr>role = ASSISTANT, content = Some ''Hello'', custom_content = None\<rparr>,
      \<lparr>choice_stages =
          [\<lparr>stage_name = Some ''Call GPA Agent'', stage_content = ''Hello'',
             stage_attachments = [], status = StageOpen\<rparr>,
           \<lparr>stage_name = Some ''Searching'', stage_content = [],
             stage_attachments = [], status = StageCompleted\<rparr>],
        choice_attachments = [], choice_state = Some (gpa_state (PInt 2))\<rparr>)"

text \<open>
  For the examples of nested-section updates: a surface whose only stage is the
  section of index 7 with content \<open>x\<close>, open or completed, and an update for that
  index with the given content, attachments and status.
\<close>

definition example_section :: "stage_status \<Rightarrow> choice" where
  "example_section st =
     \<lparr>choice_stages = [\<lparr>stage_name = Some ''Searching'', stage_content = ''x'',
                         stage_attachments = [], status = st\<rparr>],
      choice_attachments = [], choice_state = None\<rparr>"

definition example_update ::
  "string option \<Rightarrow> pyval list option \<Rightarrow> string option \<Rightarrow> stage_update" where
  "example_update c a s =
     \<lparr>su_index = 7, su_name = None, su_content = c, su_attachments = a, su_status = s\<rparr>"

section \<open>Verified properties\<close>

subsection \<open>Decimal numbering\<close>

lemma of_char_digit: "d < 10 \<Longrightarrow> of_char (digit_char d) = 48 + d"
proof -
  assume "d < 10"
  then have "d = 0 \<or> d = 1 \<or> d = 2 \<or> d = 3 \<or> d = 4 \<or> d = 5 \<or> d = 6 \<or> d = 7
    \<or> d = 8 \<or> d = 9" by presburger
  then show ?thesis by (elim disjE) (simp_all add: digit_char_def)
qed

lemma digits_value_snoc: "digits_value (cs @ [c]) = 10 * digits_value cs + (of_char c - 48)"
proof (cases cs)
  case Nil
  then show ?thesis by simp
next
  case (Cons x xs)
  have "butlast (x # xs @ [c]) = x # xs" using butlast_snoc[of "x # xs" c] by simp
  moreover have "last (x # xs @ [c]) = c" by simp
  ultimately show ?thesis using Cons by simp
qed

lemma str_nat_eq:
  "str_nat n = (if n < 10 then [digit_char n] else str_nat (n div 10) @ [digit_char (n mod 10)])"
  by (rule str_nat.simps)

text \<open>The digits that \<open>str_nat\<close> writes denote the number it was given.\<close>

lemma digits_value_str_nat: "digits_value (str_nat n) = n"
proof (induction n rule: str_nat.induct)
  case (1 n)
  show ?case
  proof (cases "n < 10")
    case True
    then have "str_nat n = [digit_char n]" by (subst str_nat_eq) simp
    with True show ?thesis by (simp add: of_char_digit)
  next
    case False
    with 1 have ih: "digits_value (str_nat (n div 10)) = n div 10" by blast
    from False have "str_nat n = str_nat (n div 10) @ [digit_char (n mod 10)]"
      by (subst str_nat_eq) simp
    then show ?thesis using ih by (simp add: digits_value_snoc of_char_digit)
  qed
qed

subsection \<open>Synthesis context\<close>

text \<open>
  Claim C5. The context block of the synthesis request: for no agent message it is the
  text \<open>No agent calls\<close>; for exactly one it is a single unnumbered block holding that
  message's content; for \<open>N \<ge> 2\<close> messages it is \<open>N\<close> blocks joined by newlines, the
  \<open>k\<close>-th of them headed \<open>CONTEXT k\<close> (counting from 1, in decimal) and holding the
  content of the \<open>k\<close>-th agent message as it is, in the order of the list.
\<close>

theorem context_construction:
  "build_context [] = ''No agent calls''
   \<and> build_context [m] = ''## CONTEXT:\<newline> '' @ py_str (content m)
   \<and> (2 \<le> length ms \<longrightarrow>
       (\<exists>blocks. length blocks = length ms
          \<and> (\<forall>k<length ms.
                \<exists>num. digits_value num = k + 1
                  \<and> blocks ! k = ''## CONTEXT '' @ num @ '':\<newline> '' @ py_str (content (ms ! k)))
          \<and> build_context ms = join ''\<newline>'' blocks))"
proof -
  have a: "build_context [] = ''No agent calls''" by (simp add: build_context_def)
  have b: "build_context [m] = ''## CONTEXT:\<newline> '' @ py_str (content m)"
    by (simp add: build_context_def)
  have c: "\<exists>blocks. length blocks = length ms
          \<and> (\<forall>k<length ms.
                \<exists>num. digits_value num = k + 1
                  \<and> blocks ! k = ''## CONTEXT '' @ num @ '':\<newline> '' @ py_str (content (ms ! k)))
          \<and> build_context ms = join ''\<newline>'' blocks" if len: "2 \<le> length ms"
  proof -
    let ?blocks = "map context_block (enumerate 0 ms)"
    have "length ?blocks = length ms" by simp
    moreover have "\<exists>num. digits_value num = k + 1
        \<and> ?blocks ! k = ''## CONTEXT '' @ num @ '':\<newline> '' @ py_str (content (ms ! k))"
      if "k < length ms" for k
    proof -
      have "?blocks ! k = ''## CONTEXT '' @ str_nat (k + 1) @ '':\<newline> '' @ py_str (content (ms ! k))"
        using that by (simp add: context_block_def nth_enumerate_eq del: str_nat.simps)
      then show ?thesis using digits_value_str_nat[of "k + 1"] by blast
    qed
    moreover have "build_context ms = join ''\<newline>'' ?blocks"
      using len by (simp add: build_context_def)
    ultimately show ?thesis by blast
  qed
  from a b c show ?thesis by blast
qed

theorem context_construction_witness:
  "2 \<le> length [\<lparr>role = ASSISTANT, content = Some ''A'', custom_content = None\<rparr>,
                \<lparr>role = ASSISTANT, content = Some ''B'', custom_content = None\<rparr>]
   \<and> build_context [\<lparr>role = ASSISTANT, content = Some ''A'', custom_content = None\<rparr>,
                    \<lparr>role = ASSISTANT, content = Some ''B'', custom_content = None\<rparr>]
       = ''## CONTEXT 1:\<newline> A\<newline>## CONTEXT 2:\<newline> B''
   \<and> build_context [\<lparr>role = ASSISTANT, content = Some ''A'', custom_content = None\<rparr>]
       = ''## CONTEXT:\<newline> A''"
  using context_construction
    [of "\<lparr>role = ASSISTANT, content = Some ''A'', custom_content = None\<rparr>"
        "[\<lparr>role = ASSISTANT, content = Some ''A'', custom_content = None\<rparr>,
          \<lparr>role = ASSISTANT, content = Some ''B'', custom_content = None\<rparr>]"]
  by (simp add: build_context_def context_block_def enumerate_eq_zip py_str_def digit_char_def)

subsection \<open>History transcription\<close>

lemma transcribe_content:
  "\<exists>d. transcribe m = PDict d \<and>
     map_of d ''content'' =
       (if role m = USER \<and> custom_content m \<noteq> None then Some (PStr (py_str (content m)))
        else map_option PStr (content m))"
  by (cases "content m"; cases "custom_content m")
     (auto simp: transcribe_def message_dict_def opt_item_def role_val_def)

text \<open>
  Claim C9. The message list that the planner and the synthesizer send starts with the
  system prompt, followed by one entry per message of the history, in order. A user
  message with a side channel becomes a plain user entry with its text only (the text
  \<open>None\<close> when it has no text); every other message is forwarded as its own
  dictionary.
\<close>

theorem history_transcription:
  "hd (prepare_messages req p) = PDict [(''role'', PStr ''system''), (''content'', PStr p)]
   \<and> length (prepare_messages req p) = Suc (length (messages req))
   \<and> (\<forall>i<length (messages req).
        (role (messages req ! i) = USER \<and> custom_content (messages req ! i) \<noteq> None \<longrightarrow>
           prepare_messages req p ! Suc i =
             PDict [(''role'', PStr ''user''),
                    (''content'', PStr (case content (messages req ! i) of
                                          Some c \<Rightarrow> c | None \<Rightarrow> ''None''))])
      \<and> (\<not> (role (messages req ! i) = USER \<and> custom_content (messages req ! i) \<noteq> None) \<longrightarrow>
           prepare_messages req p ! Suc i = message_dict (messages req ! i)))"
  by (auto simp: prepare_messages_def transcribe_def role_val_def py_str_def)

theorem history_transcription_witness:
  "(0::nat) < length (messages \<lparr>messages =
        [\<lparr>role = USER, content = Some ''hi'',
          custom_content = Some \<lparr>stages = None, attachments = Some [PStr ''file''], state = PNone\<rparr>\<rparr>,
         \<lparr>role = ASSISTANT, content = Some ''hello'', custom_content = None\<rparr>]\<rparr>)
   \<and> prepare_messages \<lparr>messages =
        [\<lparr>role = USER, content = Some ''hi'',
          custom_content = Some \<lparr>stages = None, attachments = Some [PStr ''file''], state = PNone\<rparr>\<rparr>,
         \<lparr>role = ASSISTANT, content = Some ''hello'', custom_content = None\<rparr>]\<rparr> ''P''
      = [PDict [(''role'', PStr ''system''), (''content'', PStr ''P'')],
         PDict [(''role'', PStr ''user''), (''content'', PStr ''hi'')],
         PDict [(''role'', PStr ''assistant''), (''content'', PStr ''hello'')]]"
  using history_transcription [of "\<lparr>messages =
        [\<lparr>role = USER, content = Some ''hi'',
          custom_content = Some \<lparr>stages = None, attachments = Some [PStr ''file''], state = PNone\<rparr>\<rparr>,
         \<lparr>role = ASSISTANT, content = Some ''hello'', custom_content = None\<rparr>]\<rparr>" "''P''"]
  by (simp add: prepare_messages_def transcribe_def message_dict_def role_val_def py_str_def
      opt_item_def)

subsection \<open>Frame of the synthesis request\<close>

lemma map_of_dict_set:
  "map_of (dict_set d k v) k' = (if k' = k then Some v else map_of d k')"
  by (induction d k v rule: dict_set.induct) auto

lemma keys_dict_set:
  "map_of d k \<noteq> None \<Longrightarrow> map fst (dict_set d k v) = map fst d"
  by (induction d k v rule: dict_set.induct) auto

lemma set_last_content_Inr:
  "set_last_content xs ctx = Inr ys \<Longrightarrow>
     xs \<noteq> [] \<and> length ys = length xs \<and> butlast ys = butlast xs \<and>
     (\<exists>d old txt. last xs = PDict d \<and> map_of d ''content'' = Some old \<and> format_content old = Inr txt
        \<and> last ys = PDict (dict_set d ''content'' (PStr (ctx @ user_request_separator @ txt))))"
proof (induction xs ctx arbitrary: ys rule: set_last_content.induct)
  case (1 ctx)
  then show ?case by simp
next
  case (2 d ctx)
  then show ?case by (auto simp: dict_index_def split: option.splits sum.splits)
next
  case (4 x y ys' ctx)
  then show ?case by (auto split: sum.splits)
qed simp_all

lemma set_last_content_total:
  "xs \<noteq> [] \<Longrightarrow> last xs = PDict d \<Longrightarrow> map_of d ''content'' = Some (PStr old) \<Longrightarrow>
     \<exists>ys. set_last_content xs ctx = Inr ys"
proof (induction xs ctx rule: set_last_content.induct)
  case (2 d' ctx)
  then show ?case by (simp add: dict_index_def)
next
  case (4 x y ys' ctx)
  then show ?case by (auto split: sum.splits)
qed simp_all

lemma prepare_messages_last:
  "\<exists>d. last (prepare_messages req p) = PDict d \<and>
     map_of d ''content'' =
       (if messages req = [] then Some (PStr p)
        else if role (last (messages req)) = USER \<and> custom_content (last (messages req)) \<noteq> None
        then Some (PStr (py_str (content (last (messages req)))))
        else map_option PStr (content (last (messages req))))"
proof (cases "messages req = []")
  case True
  then show ?thesis by (simp add: prepare_messages_def)
next
  case False
  then have "last (prepare_messages req p) = transcribe (last (messages req))"
    by (simp add: prepare_messages_def last_map)
  with False transcribe_content[of "last (messages req)"] show ?thesis by auto
qed

text \<open>
  Claim C8. When the synthesis request is built, the list keeps its length and every
  entry but the last is the prepared one. In the last entry only the value under
  \<open>content\<close> changes: it becomes the context block, the separator and then the text
  that was there; the keys and every other value stay. The request is built whenever
  the last prepared entry has a text.
\<close>

theorem synthesis_request_frame:
  "(synthesis_messages req p agent_messages = Inr out \<longrightarrow>
      length out = length (prepare_messages req p)
      \<and> (\<forall>i. Suc i < length out \<longrightarrow> out ! i = prepare_messages req p ! i)
      \<and> (\<exists>d old. last (prepare_messages req p) = PDict d
            \<and> map_of d ''content'' = Some (PStr old)
            \<and> last out = PDict (dict_set d ''content''
                 (PStr (build_context agent_messages
                          @ ''\<newline> ---\<newline> ## USER_REQUEST: \<newline> '' @ old)))
            \<and> map fst (dict_set d ''content''
                 (PStr (build_context agent_messages
                          @ ''\<newline> ---\<newline> ## USER_REQUEST: \<newline> '' @ old))) = map fst d
            \<and> (\<forall>k. k \<noteq> ''content'' \<longrightarrow>
                  map_of (dict_set d ''content''
                    (PStr (build_context agent_messages
                          @ ''\<newline> ---\<newline> ## USER_REQUEST: \<newline> '' @ old))) k = map_of d k)))
   \<and> (messages req = [] \<or> content (last (messages req)) \<noteq> None
        \<or> (role (last (messages req)) = USER \<and> custom_content (last (messages req)) \<noteq> None)
       \<longrightarrow> (\<exists>out. synthesis_messages req p agent_messages = Inr out))"
proof -
  let ?pm = "prepare_messages req p"
  let ?ctx = "build_context agent_messages"
  obtain d where d: "last ?pm = PDict d"
    and dc: "map_of d ''content'' =
       (if messages req = [] then Some (PStr p)
        else if role (last (messages req)) = USER \<and> custom_content (last (messages req)) \<noteq> None
        then Some (PStr (py_str (content (last (messages req)))))
        else map_option PStr (content (last (messages req))))"
    using prepare_messages_last[of req p] by blast
  have ne: "?pm \<noteq> []" by (simp add: prepare_messages_def)
  have frame: "length out = length ?pm
      \<and> (\<forall>i. Suc i < length out \<longrightarrow> out ! i = ?pm ! i)
      \<and> (\<exists>d old. last ?pm = PDict d
            \<and> map_of d ''content'' = Some (PStr old)
            \<and> last out = PDict (dict_set d ''content''
                 (PStr (?ctx @ ''\<newline> ---\<newline> ## USER_REQUEST: \<newline> '' @ old)))
            \<and> map fst (dict_set d ''content''
                 (PStr (?ctx @ ''\<newline> ---\<newline> ## USER_REQUEST: \<newline> '' @ old))) = map fst d
            \<and> (\<forall>k. k \<noteq> ''content'' \<longrightarrow>
                  map_of (dict_set d ''content''
                    (PStr (?ctx @ ''\<newline> ---\<newline> ## USER_REQUEST: \<newline> '' @ old))) k = map_of d k))"
    if ok: "synthesis_messages req p agent_messages = Inr out"
  proof -
    from ok have s: "set_last_content ?pm ?ctx = Inr out" by (simp add: synthesis_messages_def)
    from set_last_content_Inr[OF s] obtain d' old' tx where
      len: "length out = length ?pm" and bl: "butlast out = butlast ?pm"
      and d': "last ?pm = PDict d'" and c': "map_of d' ''content'' = Some old'"
      and f: "format_content old' = Inr tx"
      and lo: "last out = PDict (dict_set d' ''content'' (PStr (?ctx @ user_request_separator @ tx)))"
      by blast
    from d d' have dd: "d' = d" by simp
    from dc c' dd obtain old where o: "old' = PStr old"
      by (auto split: if_splits)
    with f have t: "tx = old" by simp
    have nth: "\<forall>i. Suc i < length out \<longrightarrow> out ! i = ?pm ! i"
    proof (intro allI impI)
      fix i assume i: "Suc i < length out"
      then have "butlast out ! i = out ! i" by (simp add: nth_butlast)
      moreover from i len have "butlast ?pm ! i = ?pm ! i" by (simp add: nth_butlast)
      ultimately show "out ! i = ?pm ! i" using bl by simp
    qed
    from c' dd have "map_of d ''content'' \<noteq> None" by simp
    then have keys: "map fst (dict_set d ''content'' v) = map fst d" for v
      by (rule keys_dict_set)
    show ?thesis
      using len nth d c' o lo t dd keys map_of_dict_set
      by (auto simp: user_request_separator_def)
  qed
  have total: "\<exists>out. synthesis_messages req p agent_messages = Inr out"
    if c: "messages req = [] \<or> content (last (messages req)) \<noteq> None
        \<or> (role (last (messages req)) = USER \<and> custom_content (last (messages req)) \<noteq> None)"
  proof -
    from c dc obtain old where "map_of d ''content'' = Some (PStr old)"
      by (auto split: if_splits)
    from set_last_content_total[OF ne d this] show ?thesis
      by (simp add: synthesis_messages_def)
  qed
  from frame total show ?thesis by blast
qed

theorem synthesis_request_frame_witness:
  "synthesis_messages
      \<lparr>messages = [\<lparr>role = USER, content = Some ''q1'', custom_content = None\<rparr>,
                   \<lparr>role = ASSISTANT, content = Some ''a1'', custom_content = None\<rparr>,
                   \<lparr>role = USER, content = Some ''q2'', custom_content = None\<rparr>]\<rparr> ''P''
      [\<lparr>role = ASSISTANT, content = Some ''A'', custom_content = None\<rparr>]
     = Inr [PDict [(''role'', PStr ''system''), (''content'', PStr ''P'')],
            PDict [(''role'', PStr ''user''), (''content'', PStr ''q1'')],
            PDict [(''role'', PStr ''assistant''), (''content'', PStr ''a1'')],
            PDict [(''role'', PStr ''user''),
                   (''content'', PStr ''## CONTEXT:\<newline> A\<newline> ---\<newline> ## USER_REQUEST: \<newline> q2'')]]
   \<and> content (last (messages
      \<lparr>messages = [\<lparr>role = USER, content = Some ''q1'', custom_content = None\<rparr>,
                   \<lparr>role = ASSISTANT, content = Some ''a1'', custom_content = None\<rparr>,
                   \<lparr>role = USER, content = Some ''q2'', custom_content = None\<rparr>]\<rparr>)) \<noteq> None"
  using synthesis_request_frame
    [of "\<lparr>messages = [\<lparr>role = USER, content = Some ''q1'', custom_content = None\<rparr>,
                   \<lparr>role = ASSISTANT, content = Some ''a1'', custom_content = None\<rparr>,
                   \<lparr>role = USER, content = Some ''q2'', custom_content = None\<rparr>]\<rparr>" "''P''"
        "[\<lparr>role = ASSISTANT, content = Some ''A'', custom_content = None\<rparr>]"]
  by (simp add: synthesis_messages_def prepare_messages_def transcribe_def message_dict_def
      role_val_def py_str_def opt_item_def build_context_def dict_index_def
      user_request_separator_def)

subsection \<open>Merged side channel\<close>

lemma merge_step_Inr:
  "side_stages acc' = side_stages acc @ side_stages (custom_content m) \<and>
     side_attachments acc' = side_attachments acc @ side_attachments (custom_content m) \<and>
     (acc' = None \<longleftrightarrow> acc = None \<and> custom_content m = None)"
  if "merge_step acc m = Inr acc'"
proof (cases "custom_content m")
  case None
  then show ?thesis using that by (simp add: merge_step_def side_stages_def side_attachments_def)
next
  case (Some cc)
  show ?thesis
  proof (cases acc)
    case None
    with Some that show ?thesis
      by (simp add: merge_step_def side_stages_def side_attachments_def)
  next
    case (Some a)
    with \<open>custom_content m = Some cc\<close> that show ?thesis
      by (cases "stages a"; cases "stages cc"; cases "attachments a"; cases "attachments cc")
         (auto simp: merge_step_def extend_opt_def side_stages_def side_attachments_def items_def)
  qed
qed

lemma merge_custom_content_Inr:
  "merge_custom_content acc ms = Inr r \<Longrightarrow>
     side_stages r = side_stages acc @ concat (map (side_stages \<circ> custom_content) ms) \<and>
     side_attachments r = side_attachments acc @ concat (map (side_attachments \<circ> custom_content) ms) \<and>
     (r = None \<longleftrightarrow> acc = None \<and> (\<forall>m\<in>set ms. custom_content m = None))"
proof (induction ms arbitrary: acc)
  case Nil
  then show ?case by simp
next
  case (Cons m ms)
  from Cons.prems obtain acc' where s: "merge_step acc m = Inr acc'"
    and r: "merge_custom_content acc' ms = Inr r"
    by (auto split: sum.splits)
  from merge_step_Inr[OF s] Cons.IH[OF r] show ?case by auto
qed

lemma merge_step_total:
  "(acc = None \<or> (\<exists>a. acc = Some a \<and> stages a \<noteq> None \<and> attachments a \<noteq> None)) \<Longrightarrow>
   (\<forall>cc. custom_content m = Some cc \<longrightarrow> stages cc \<noteq> None \<and> attachments cc \<noteq> None) \<Longrightarrow>
   \<exists>acc'. merge_step acc m = Inr acc' \<and>
     (acc' = None \<or> (\<exists>a. acc' = Some a \<and> stages a \<noteq> None \<and> attachments a \<noteq> None))"
  by (cases "custom_content m"; cases acc)
     (auto simp: merge_step_def extend_opt_def)

lemma merge_custom_content_total:
  "(acc = None \<or> (\<exists>a. acc = Some a \<and> stages a \<noteq> None \<and> attachments a \<noteq> None)) \<Longrightarrow>
   (\<forall>m\<in>set ms. \<forall>cc. custom_content m = Some cc \<longrightarrow> stages cc \<noteq> None \<and> attachments cc \<noteq> None) \<Longrightarrow>
   \<exists>r. merge_custom_content acc ms = Inr r"
proof (induction ms arbitrary: acc)
  case Nil
  then show ?case by simp
next
  case (Cons m ms)
  from Cons.prems have "\<forall>cc. custom_content m = Some cc \<longrightarrow> stages cc \<noteq> None \<and> attachments cc \<noteq> None"
    by simp
  from merge_step_total[OF Cons.prems(1) this] obtain acc' where
    s: "merge_step acc m = Inr acc'"
    and w: "acc' = None \<or> (\<exists>a. acc' = Some a \<and> stages a \<noteq> None \<and> attachments a \<noteq> None)"
    by blast
  from Cons.prems have "\<forall>m\<in>set ms. \<forall>cc. custom_content m = Some cc \<longrightarrow> stages cc \<noteq> None \<and> attachments cc \<noteq> None"
    by simp
  from Cons.IH[OF w this] s show ?case by simp
qed

text \<open>
  Claim C7. The message returned after the synthesis stream is an assistant message
  with the streamed text. Its stages are the stages of all agent messages, concatenated
  in the order of the list, and its attachments are their attachments, concatenated in
  the same order; it has no side channel exactly when no agent message has one. The
  merge succeeds whenever every side channel holds both of its lists.
\<close>

theorem merged_side_channel:
  "(final_message text agent_messages = Inr m \<longrightarrow>
      role m = ASSISTANT \<and> content m = Some text
      \<and> side_stages (custom_content m)
          = concat (map (\<lambda>a. side_stages (custom_content a)) agent_messages)
      \<and> side_attachments (custom_content m)
          = concat (map (\<lambda>a. side_attachments (custom_content a)) agent_messages)
      \<and> (custom_content m = None \<longleftrightarrow> (\<forall>a\<in>set agent_messages. custom_content a = None)))
   \<and> ((\<forall>a\<in>set agent_messages. \<forall>cc. custom_content a = Some cc \<longrightarrow>
          stages cc \<noteq> None \<and> attachments cc \<noteq> None)
       \<longrightarrow> (\<exists>m. final_message text agent_messages = Inr m))"
proof -
  have a: "role m = ASSISTANT \<and> content m = Some text
      \<and> side_stages (custom_content m)
          = concat (map (\<lambda>a. side_stages (custom_content a)) agent_messages)
      \<and> side_attachments (custom_content m)
          = concat (map (\<lambda>a. side_attachments (custom_content a)) agent_messages)
      \<and> (custom_content m = None \<longleftrightarrow> (\<forall>a\<in>set agent_messages. custom_content a = None))"
    if ok: "final_message text agent_messages = Inr m"
  proof -
    from ok obtain r where r: "merge_custom_content None agent_messages = Inr r"
      and m: "m = \<lparr>role = ASSISTANT, content = Some text, custom_content = r\<rparr>"
      by (auto simp: final_message_def split: sum.splits)
    from merge_custom_content_Inr[OF r] m show ?thesis
      by (simp add: side_stages_def side_attachments_def comp_def)
  qed
  have b: "\<exists>m. final_message text agent_messages = Inr m"
    if "\<forall>a\<in>set agent_messages. \<forall>cc. custom_content a = Some cc \<longrightarrow>
          stages cc \<noteq> None \<and> attachments cc \<noteq> None"
  proof -
    from merge_custom_content_total[of None agent_messages] that
    obtain r where "merge_custom_content None agent_messages = Inr r" by auto
    then show ?thesis by (simp add: final_message_def)
  qed
  from a b show ?thesis by blast
qed

theorem merged_side_channel_witness:
  "final_message ''done''
     [\<lparr>role = ASSISTANT, content = Some ''A'',
       custom_content = Some \<lparr>stages = Some [PStr ''s1''], attachments = Some [PStr ''file1''], state = PNone\<rparr>\<rparr>,
      \<lparr>role = ASSISTANT, content = Some ''B'', custom_content = None\<rparr>,
      \<lparr>role = ASSISTANT, content = Some ''C'',
       custom_content = Some \<lparr>stages = Some [PStr ''s2'', PStr ''s3''], attachments = Some [], state = PNone\<rparr>\<rparr>]
    = Inr \<lparr>role = ASSISTANT, content = Some ''done'',
           custom_content = Some \<lparr>stages = Some [PStr ''s1'', PStr ''s2'', PStr ''s3''],
                                   attachments = Some [PStr ''file1''], state = PNone\<rparr>\<rparr>
   \<and> final_message ''done'' [\<lparr>role = ASSISTANT, content = Some ''B'', custom_content = None\<rparr>]
    = Inr \<lparr>role = ASSISTANT, content = Some ''done'', custom_content = None\<rparr>"
  using merged_side_channel [of "''done''"
     "[\<lparr>role = ASSISTANT, content = Some ''A'',
       custom_content = Some \<lparr>stages = Some [PStr ''s1''], attachments = Some [PStr ''file1''], state = PNone\<rparr>\<rparr>,
      \<lparr>role = ASSISTANT, content = Some ''B'', custom_content = None\<rparr>,
      \<lparr>role = ASSISTANT, content = Some ''C'',
       custom_content = Some \<lparr>stages = Some [PStr ''s2'', PStr ''s3''], attachments = Some [], state = PNone\<rparr>\<rparr>]"]
  by (simp add: final_message_def merge_step_def extend_opt_def)

subsection \<open>The progress sink and the nested-section updates\<close>

lemma length_update_stage [simp]:
  "length (choice_stages (update_stage ch r f)) = length (choice_stages ch)"
  by (simp add: update_stage_def)

lemma nth_update_stage:
  "r' < length (choice_stages ch) \<Longrightarrow>
     choice_stages (update_stage ch r f) ! r' =
       (if r' = r then f (choice_stages ch ! r) else choice_stages ch ! r')"
  by (simp add: update_stage_def nth_list_update)

lemma update_stage_rest [simp]:
  "choice_attachments (update_stage ch r f) = choice_attachments ch"
  "choice_state (update_stage ch r f) = choice_state ch"
  by (simp_all add: update_stage_def)

lemma is_open_update_stage:
  "is_open (update_stage ch r f) r' =
     (r' < length (choice_stages ch) \<and>
      status (if r' = r then f (choice_stages ch ! r) else choice_stages ch ! r') = StageOpen)"
  by (auto simp: is_open_def nth_update_stage)

lemma stage_append_content_open:
  "is_open ch r \<Longrightarrow> stage_append_content strict ch r t =
     Inr (update_stage ch r (\<lambda>s. s\<lparr>stage_content := stage_content s @ t\<rparr>))"
  by (simp add: stage_append_content_def)

lemma stage_append_content_closed:
  "\<not> is_open ch r \<Longrightarrow> stage_append_content strict ch r t = Inr ch' \<Longrightarrow> ch' = ch"
  by (simp add: stage_append_content_def split: if_splits)

lemma add_attachments_open:
  "is_open ch r \<Longrightarrow> add_attachments strict ch r as =
     Inr (update_stage ch r (\<lambda>s. s\<lparr>stage_attachments := stage_attachments s @ as\<rparr>))"
proof (induction as arbitrary: ch)
  case Nil
  then show ?case
    by (simp add: update_stage_def is_open_def list_update_same_conv)
next
  case (Cons a as)
  let ?ch1 = "update_stage ch r (\<lambda>s. s\<lparr>stage_attachments := stage_attachments s @ [a]\<rparr>)"
  from Cons.prems have o1: "is_open ?ch1 r" by (auto simp: is_open_def nth_update_stage)
  from Cons.prems have "stage_add_attachment strict ch r a = Inr ?ch1"
    by (simp add: stage_add_attachment_def)
  then have "add_attachments strict ch r (a # as) = add_attachments strict ?ch1 r as" by simp
  also have "\<dots> = Inr (update_stage ?ch1 r (\<lambda>s. s\<lparr>stage_attachments := stage_attachments s @ as\<rparr>))"
    by (rule Cons.IH[OF o1])
  also have "update_stage ?ch1 r (\<lambda>s. s\<lparr>stage_attachments := stage_attachments s @ as\<rparr>)
      = update_stage ch r (\<lambda>s. s\<lparr>stage_attachments := stage_attachments s @ a # as\<rparr>)"
    using Cons.prems by (simp add: update_stage_def is_open_def)
  finally show ?case .
qed

lemma add_attachments_closed:
  "\<not> is_open ch r \<Longrightarrow> add_attachments strict ch r as = Inr ch' \<Longrightarrow> ch' = ch"
proof (induction as arbitrary: ch)
  case Nil
  then show ?case by simp
next
  case (Cons a as)
  then show ?case
    by (auto simp: stage_add_attachment_def split: if_splits)
qed

lemma update_stage_id: "update_stage ch r (\<lambda>s. s) = ch"
  by (simp add: update_stage_def)

lemma apply_stage_update_new:
  "map_of smap (su_index u) = None \<Longrightarrow>
     apply_stage_update strict (smap, ch) u =
       Inr (smap @ [(su_index u, length (choice_stages ch))],
            ch\<lparr>choice_stages := choice_stages ch @
              [\<lparr>stage_name = su_name u, stage_content = [], stage_attachments = [],
                status = StageOpen\<rparr>]\<rparr>)"
  by (simp add: apply_stage_update_def open_stage_def)

lemma apply_stage_update_known:
  assumes "map_of smap (su_index u) = Some r"
    and "apply_stage_update strict (smap, ch) u = Inr (smap', ch')"
  shows "smap' = smap \<and> (\<exists>f. ch' = update_stage ch r f \<and> (\<forall>s. stage_name (f s) = stage_name s))"
proof -
  consider (c) "given (su_content u)"
    | (a) "\<not> given (su_content u)" "given (su_attachments u)"
    | (s) "\<not> given (su_content u)" "\<not> given (su_attachments u)" "su_status u = Some ''completed''"
    | (n) "\<not> given (su_content u)" "\<not> given (su_attachments u)" "su_status u \<noteq> Some ''completed''"
    by blast
  then show ?thesis
  proof cases
    case c
    with assms obtain "smap' = smap"
      and r: "stage_append_content strict ch r (items (su_content u)) = Inr ch'"
      by (auto simp: apply_stage_update_def split: sum.splits)
    show ?thesis
    proof (cases "is_open ch r")
      case True
      with r have "ch' = update_stage ch r (\<lambda>s. s\<lparr>stage_content := stage_content s @ items (su_content u)\<rparr>)"
        by (simp add: stage_append_content_open)
      with \<open>smap' = smap\<close> show ?thesis by auto
    next
      case False
      from False r have "ch' = ch" by (rule stage_append_content_closed)
      then have "ch' = update_stage ch r (\<lambda>s. s)" by (simp add: update_stage_id)
      with \<open>smap' = smap\<close> show ?thesis by blast
    qed
  next
    case a
    with assms obtain "smap' = smap"
      and r: "add_attachments strict ch r (items (su_attachments u)) = Inr ch'"
      by (auto simp: apply_stage_update_def split: sum.splits)
    show ?thesis
    proof (cases "is_open ch r")
      case True
      with r have "ch' = update_stage ch r (\<lambda>s. s\<lparr>stage_attachments := stage_attachments s @ items (su_attachments u)\<rparr>)"
        by (simp add: add_attachments_open)
      with \<open>smap' = smap\<close> show ?thesis by auto
    next
      case False
      from False r have "ch' = ch" by (rule add_attachments_closed)
      then have "ch' = update_stage ch r (\<lambda>s. s)" by (simp add: update_stage_id)
      with \<open>smap' = smap\<close> show ?thesis by blast
    qed
  next
    case s
    with assms have "smap' = smap" "ch' = update_stage ch r (\<lambda>s. s\<lparr>status := StageCompleted\<rparr>)"
      by (auto simp: apply_stage_update_def close_stage_safely_def)
    then show ?thesis by auto
  next
    case n
    with assms have "smap' = smap" "ch' = ch"
      by (auto simp: apply_stage_update_def)
    then have "ch' = update_stage ch r (\<lambda>s. s)" by (simp add: update_stage_id)
    with \<open>smap' = smap\<close> show ?thesis by blast
  qed
qed

lemma map_of_None_iff: "map_of smap k = None \<longleftrightarrow> k \<notin> fst ` set smap"
  by (simp add: map_of_eq_None_iff)

lemma map_inv_ref:
  "map_inv n0 smap ch \<Longrightarrow> map_of smap k = Some r \<Longrightarrow> n0 \<le> r \<and> r < length (choice_stages ch)"
proof -
  assume inv: "map_inv n0 smap ch" and k: "map_of smap k = Some r"
  from k have "(k, r) \<in> set smap" by (rule map_of_SomeD)
  then have "r \<in> set (map snd smap)" by force
  with inv show ?thesis by (simp add: map_inv_def)
qed

lemma apply_stage_update_inv:
  assumes inv: "map_inv n0 smap ch"
    and step: "apply_stage_update strict (smap, ch) u = Inr (smap', ch')"
  shows "map_inv n0 smap' ch'
    \<and> length (choice_stages ch) \<le> length (choice_stages ch')
    \<and> (\<forall>r<n0. choice_stages ch' ! r = choice_stages ch ! r)
    \<and> (\<forall>r<length (choice_stages ch). stage_name (choice_stages ch' ! r) = stage_name (choice_stages ch ! r))
    \<and> choice_attachments ch' = choice_attachments ch
    \<and> choice_state ch' = choice_state ch
    \<and> fst ` set smap' = insert (su_index u) (fst ` set smap)"
proof (cases "map_of smap (su_index u)")
  case None
  with step have s: "smap' = smap @ [(su_index u, length (choice_stages ch))]"
    and c: "ch' = ch\<lparr>choice_stages := choice_stages ch @
            [\<lparr>stage_name = su_name u, stage_content = [], stage_attachments = [],
              status = StageOpen\<rparr>]\<rparr>"
    by (simp_all add: apply_stage_update_new)
  from None have "su_index u \<notin> fst ` set smap" by (simp add: map_of_None_iff)
  with inv s c show ?thesis
    by (auto simp: map_inv_def nth_append)
next
  case (Some r)
  from apply_stage_update_known[OF Some step] obtain f where
    s: "smap' = smap" and c: "ch' = update_stage ch r f"
    and f: "\<forall>s. stage_name (f s) = stage_name s" by blast
  from map_inv_ref[OF inv Some] have r: "n0 \<le> r" "r < length (choice_stages ch)" by simp_all
  from Some have "su_index u \<in> fst ` set smap"
    by (metis map_of_None_iff option.distinct(1))
  with inv s c f r show ?thesis
    by (auto simp: map_inv_def nth_update_stage)
qed

lemma apply_stage_updates_inv:
  "map_inv n0 smap ch \<Longrightarrow> apply_stage_updates strict (smap, ch) us = Inr (smap', ch') \<Longrightarrow>
     map_inv n0 smap' ch'
     \<and> length (choice_stages ch) \<le> length (choice_stages ch')
     \<and> (\<forall>r<n0. choice_stages ch' ! r = choice_stages ch ! r)
     \<and> (\<forall>r<length (choice_stages ch). stage_name (choice_stages ch' ! r) = stage_name (choice_stages ch ! r))
     \<and> choice_attachments ch' = choice_attachments ch
     \<and> choice_state ch' = choice_state ch
     \<and> fst ` set smap' = su_index ` set us \<union> fst ` set smap"
proof (induction us arbitrary: smap ch)
  case Nil
  then show ?case by simp
next
  case (Cons u us)
  from Cons.prems(2) obtain smap1 ch1 where
    s1: "apply_stage_update strict (smap, ch) u = Inr (smap1, ch1)"
    and r1: "apply_stage_updates strict (smap1, ch1) us = Inr (smap', ch')"
    by (auto split: sum.splits)
  note a = apply_stage_update_inv[OF Cons.prems(1) s1]
  from a have i1: "map_inv n0 smap1 ch1" by blast
  note b = Cons.IH[OF i1 r1]
  from Cons.prems(1) have n0: "n0 \<le> length (choice_stages ch)" by (simp add: map_inv_def)
  from a b n0 show ?case by auto
qed

lemma apply_stage_updates_names:
  "map_inv n0 smap ch \<Longrightarrow> apply_stage_updates strict (smap, ch) us = Inr (smap', ch') \<Longrightarrow>
     (idx, r) \<in> set smap' \<Longrightarrow>
     (idx, r) \<in> set smap \<or>
     (idx \<notin> fst ` set smap \<and>
      (\<exists>u. find (\<lambda>u. su_index u = idx) us = Some u
           \<and> stage_name (choice_stages ch' ! r) = su_name u))"
proof (induction us arbitrary: smap ch)
  case Nil
  then show ?case by simp
next
  case (Cons u us)
  from Cons.prems(2) obtain smap1 ch1 where
    s1: "apply_stage_update strict (smap, ch) u = Inr (smap1, ch1)"
    and r1: "apply_stage_updates strict (smap1, ch1) us = Inr (smap', ch')"
    by (auto split: sum.splits)
  note a = apply_stage_update_inv[OF Cons.prems(1) s1]
  from a have i1: "map_inv n0 smap1 ch1" by blast
  from a have dom1: "fst ` set smap1 = insert (su_index u) (fst ` set smap)" by blast
  note b = apply_stage_updates_inv[OF i1 r1]
  from Cons.IH[OF i1 r1 Cons.prems(3)] consider
    (old) "(idx, r) \<in> set smap1"
    | (new) "idx \<notin> fst ` set smap1"
        "\<exists>u. find (\<lambda>u. su_index u = idx) us = Some u
           \<and> stage_name (choice_stages ch' ! r) = su_name u"
    by blast
  then show ?case
  proof cases
    case old
    show ?thesis
    proof (cases "map_of smap (su_index u)")
      case None
      with s1 have s: "smap1 = smap @ [(su_index u, length (choice_stages ch))]"
        and c: "ch1 = ch\<lparr>choice_stages := choice_stages ch @
            [\<lparr>stage_name = su_name u, stage_content = [], stage_attachments = [],
              status = StageOpen\<rparr>]\<rparr>"
        by (simp_all add: apply_stage_update_new)
      show ?thesis
      proof (cases "(idx, r) \<in> set smap")
        case True
        then show ?thesis by simp
      next
        case False
        with old s have e: "idx = su_index u" "r = length (choice_stages ch)" by auto
        from None e have nin: "idx \<notin> fst ` set smap" by (simp add: map_of_None_iff)
        from c e have "r < length (choice_stages ch1)" by simp
        with b have "stage_name (choice_stages ch' ! r) = stage_name (choice_stages ch1 ! r)"
          by blast
        also from c e have "\<dots> = su_name u" by (simp add: nth_append)
        finally show ?thesis using nin e by simp
      qed
    next
      case (Some r')
      from apply_stage_update_known[OF Some s1] have "smap1 = smap" by blast
      with old show ?thesis by simp
    qed
  next
    case new
    from new(1) dom1 have "idx \<noteq> su_index u" "idx \<notin> fst ` set smap" by auto
    with new(2) show ?thesis by auto
  qed
qed

subsection \<open>Nested-section updates\<close>

lemma close_completed:
  "r < length (choice_stages ch) \<Longrightarrow> status (choice_stages ch ! r) = StageCompleted \<Longrightarrow>
     close_stage_safely ch r = ch"
  by (simp add: close_stage_safely_def update_stage_def list_update_same_conv)

lemma map_inv_empty: "map_inv (length (choice_stages ch)) [] ch"
  by (simp add: map_inv_def)

lemma apply_stage_updates_from_empty:
  assumes run: "apply_stage_updates strict ([], ch) us = Inr (smap', ch')"
  shows "distinct (map fst smap') \<and> distinct (map snd smap')
    \<and> fst ` set smap' = su_index ` set us
    \<and> length (choice_stages ch') = length (choice_stages ch) + length smap'
    \<and> (\<forall>idx r. (idx, r) \<in> set smap' \<longrightarrow>
          length (choice_stages ch) \<le> r \<and> r < length (choice_stages ch')
          \<and> (\<exists>u. find (\<lambda>u. su_index u = idx) us = Some u
                \<and> stage_name (choice_stages ch' ! r) = su_name u))
    \<and> (\<forall>r<length (choice_stages ch). choice_stages ch' ! r = choice_stages ch ! r)"
proof -
  let ?n0 = "length (choice_stages ch)"
  note inv = apply_stage_updates_inv[OF map_inv_empty run]
  from inv have mi: "map_inv ?n0 smap' ch'" by blast
  then have ms: "map snd smap' = [?n0..<length (choice_stages ch')]"
    and le: "?n0 \<le> length (choice_stages ch')" and d: "distinct (map fst smap')"
    by (simp_all add: map_inv_def)
  from ms have d2: "distinct (map snd smap')" by simp
  from ms have "length (map snd smap') = length (choice_stages ch') - ?n0" by simp
  with le have len: "length (choice_stages ch') = ?n0 + length smap'" by simp
  have names: "?n0 \<le> r \<and> r < length (choice_stages ch')
          \<and> (\<exists>u. find (\<lambda>u. su_index u = idx) us = Some u
                \<and> stage_name (choice_stages ch' ! r) = su_name u)"
    if m: "(idx, r) \<in> set smap'" for idx r
  proof -
    from m have "r \<in> set (map snd smap')" by force
    with ms have "?n0 \<le> r \<and> r < length (choice_stages ch')" by simp
    moreover from apply_stage_updates_names[OF map_inv_empty run m]
    have "\<exists>u. find (\<lambda>u. su_index u = idx) us = Some u
                \<and> stage_name (choice_stages ch' ! r) = su_name u" by simp
    ultimately show ?thesis by blast
  qed
  from inv have dom: "fst ` set smap' = su_index ` set us" by simp
  from inv have old: "\<forall>r<?n0. choice_stages ch' ! r = choice_stages ch ! r" by blast
  from d d2 dom len names old show ?thesis by blast
qed

lemma apply_stage_update_known_frame:
  assumes k: "map_of smap (su_index u) = Some r"
    and step: "apply_stage_update strict (smap, ch) u = Inr st'"
  shows "fst st' = smap \<and> length (choice_stages (snd st')) = length (choice_stages ch)
    \<and> (\<forall>r'. r' \<noteq> r \<and> r' < length (choice_stages ch) \<longrightarrow>
          choice_stages (snd st') ! r' = choice_stages ch ! r')"
proof -
  obtain smap' ch' where st: "st' = (smap', ch')" by (cases st')
  from apply_stage_update_known[OF k step[unfolded st]] st show ?thesis
    by (auto simp: nth_update_stage)
qed

lemma apply_stage_update_open:
  assumes k: "map_of smap (su_index u) = Some r" and o: "is_open ch r"
  shows "given (su_content u) \<longrightarrow>
       apply_stage_update strict (smap, ch) u =
         Inr (smap, update_stage ch r
                (\<lambda>s. s\<lparr>stage_content := stage_content s @ items (su_content u)\<rparr>))"
    and "\<not> given (su_content u) \<and> given (su_attachments u) \<longrightarrow>
       apply_stage_update strict (smap, ch) u =
         Inr (smap, update_stage ch r
                (\<lambda>s. s\<lparr>stage_attachments := stage_attachments s @ items (su_attachments u)\<rparr>))"
    and "\<not> given (su_content u) \<and> \<not> given (su_attachments u) \<and> su_status u = Some ''completed'' \<longrightarrow>
       apply_stage_update strict (smap, ch) u =
         Inr (smap, update_stage ch r (\<lambda>s. s\<lparr>status := StageCompleted\<rparr>))"
  using k o
  by (simp_all add: apply_stage_update_def stage_append_content_open add_attachments_open
      close_stage_safely_def)

lemma apply_stage_update_completed:
  assumes k: "map_of smap (su_index u) = Some r"
    and r: "r < length (choice_stages ch)" and c: "status (choice_stages ch ! r) = StageCompleted"
  shows "\<forall>st'. apply_stage_update strict (smap, ch) u = Inr st' \<longrightarrow> st' = (smap, ch)"
    and "\<not> strict \<or> (\<not> given (su_content u) \<and> \<not> given (su_attachments u)) \<longrightarrow>
       apply_stage_update strict (smap, ch) u = Inr (smap, ch)"
proof -
  from c have no: "\<not> is_open ch r" by (simp add: is_open_def)
  show "\<forall>st'. apply_stage_update strict (smap, ch) u = Inr st' \<longrightarrow> st' = (smap, ch)"
  proof (intro allI impI)
    fix st' assume s: "apply_stage_update strict (smap, ch) u = Inr st'"
    show "st' = (smap, ch)"
    proof (cases "given (su_content u)")
      case True
      with k s obtain ch' where "st' = (smap, ch')"
        and "stage_append_content strict ch r (items (su_content u)) = Inr ch'"
        by (auto simp: apply_stage_update_def split: sum.splits)
      with no stage_append_content_closed show ?thesis by blast
    next
      case False
      show ?thesis
      proof (cases "given (su_attachments u)")
        case True
        with False k s obtain ch' where "st' = (smap, ch')"
          and "add_attachments strict ch r (items (su_attachments u)) = Inr ch'"
          by (auto simp: apply_stage_update_def split: sum.splits)
        with no add_attachments_closed show ?thesis by blast
      next
        case na: False
        with False k s r c show ?thesis
          by (auto simp: apply_stage_update_def close_completed split: if_splits)
      qed
    qed
  qed
  have lenient: "add_attachments False ch r as = Inr ch" for as
    using no by (induction as) (simp_all add: stage_add_attachment_def)
  show "\<not> strict \<or> (\<not> given (su_content u) \<and> \<not> given (su_attachments u)) \<longrightarrow>
       apply_stage_update strict (smap, ch) u = Inr (smap, ch)"
    using k r c no lenient
    by (auto simp: apply_stage_update_def close_completed stage_append_content_def)
qed

text \<open>
  Claim C10. On the first sighting of an index the loop opens a new, empty and open
  section with the update's name and records it at the end of the map; the content,
  attachments and status of that update play no part. For a recorded index at most one
  payload is applied: the content if the update carries any; otherwise the attachments
  if it carries any; otherwise the completion, if the status says so.
\<close>

theorem first_sighting_and_priority:
  "(map_of smap (su_index u) = None \<longrightarrow>
      apply_stage_update strict (smap, ch) u =
        Inr (smap @ [(su_index u, length (choice_stages ch))],
             ch\<lparr>choice_stages := choice_stages ch @
               [\<lparr>stage_name = su_name u, stage_content = [], stage_attachments = [],
                 status = StageOpen\<rparr>]\<rparr>)
      \<and> apply_stage_update strict (smap, ch) u =
          apply_stage_update strict (smap, ch)
            (u\<lparr>su_content := None, su_attachments := None, su_status := None\<rparr>))
   \<and> (map_of smap (su_index u) = Some r \<and> given (su_content u) \<longrightarrow>
      apply_stage_update strict (smap, ch) u =
        (case stage_append_content strict ch r (items (su_content u)) of
           Inl e \<Rightarrow> Inl e | Inr c \<Rightarrow> Inr (smap, c))
      \<and> apply_stage_update strict (smap, ch) u =
          apply_stage_update strict (smap, ch) (u\<lparr>su_attachments := None, su_status := None\<rparr>))
   \<and> (map_of smap (su_index u) = Some r \<and> \<not> given (su_content u) \<and> given (su_attachments u) \<longrightarrow>
      apply_stage_update strict (smap, ch) u =
        (case add_attachments strict ch r (items (su_attachments u)) of
           Inl e \<Rightarrow> Inl e | Inr c \<Rightarrow> Inr (smap, c))
      \<and> apply_stage_update strict (smap, ch) u =
          apply_stage_update strict (smap, ch) (u\<lparr>su_status := None\<rparr>))
   \<and> (map_of smap (su_index u) = Some r \<and> \<not> given (su_content u) \<and> \<not> given (su_attachments u) \<longrightarrow>
      apply_stage_update strict (smap, ch) u =
        (if su_status u = Some ''completed'' then Inr (smap, close_stage_safely ch r)
         else Inr (smap, ch)))"
  by (auto simp: apply_stage_update_def open_stage_def split: sum.splits)

theorem first_sighting_and_priority_witness:
  "map_of [] (su_index (example_update (Some ''y'') (Some [PStr ''file'']) (Some ''completed''))) = None
   \<and> apply_stage_update True
        ([], \<lparr>choice_stages = [], choice_attachments = [], choice_state = None\<rparr>)
        (example_update (Some ''y'') (Some [PStr ''file'']) (Some ''completed''))
       = Inr ([(7, 0)],
              \<lparr>choice_stages = [\<lparr>stage_name = None, stage_content = [],
                                  stage_attachments = [], status = StageOpen\<rparr>],
                choice_attachments = [], choice_state = None\<rparr>)
   \<and> map_of [(7, 0)] (su_index (example_update (Some ''y'') (Some [PStr ''file'']) (Some ''completed'')))
       = Some 0
   \<and> given (su_content (example_update (Some ''y'') (Some [PStr ''file'']) (Some ''completed'')))
   \<and> apply_stage_update True ([(7, 0)], example_section StageOpen)
        (example_update (Some ''y'') (Some [PStr ''file'']) (Some ''completed''))
       = Inr ([(7, 0)],
              \<lparr>choice_stages = [\<lparr>stage_name = Some ''Searching'', stage_content = ''xy'',
                                  stage_attachments = [], status = StageOpen\<rparr>],
                choice_attachments = [], choice_state = None\<rparr>)
   \<and> given (su_attachments (example_update None (Some [PStr ''file'']) (Some ''completed'')))
   \<and> apply_stage_update True ([(7, 0)], example_section StageOpen)
        (example_update None (Some [PStr ''file'']) (Some ''completed''))
       = Inr ([(7, 0)],
              \<lparr>choice_stages = [\<lparr>stage_name = Some ''Searching'', stage_content = ''x'',
                                  stage_attachments = [PStr ''file''], status = StageOpen\<rparr>],
                choice_attachments = [], choice_state = None\<rparr>)
   \<and> apply_stage_update True ([(7, 0)], example_section StageOpen)
        (example_update None None (Some ''completed''))
       = Inr ([(7, 0)], example_section StageCompleted)"
proof -
  let ?U = "example_update (Some ''y'') (Some [PStr ''file'']) (Some ''completed'')"
  let ?A = "example_update None (Some [PStr ''file'']) (Some ''completed'')"
  let ?S = "example_update None None (Some ''completed'')"
  let ?E = "\<lparr>choice_stages = [], choice_attachments = [], choice_state = None\<rparr>"
  have n: "map_of [] (su_index ?U) = None" by simp
  have k: "map_of [(7, 0)] (su_index ?U) = Some 0" "map_of [(7, 0)] (su_index ?A) = Some 0"
    "map_of [(7, 0)] (su_index ?S) = Some 0"
    by (simp_all add: example_update_def)
  have g: "given (su_content ?U)" "\<not> given (su_content ?A)" "given (su_attachments ?A)"
    "\<not> given (su_content ?S)" "\<not> given (su_attachments ?S)"
    by (simp_all add: example_update_def given_def)
  from first_sighting_and_priority [of "[]" ?U True ?E 0] n
  have c1: "apply_stage_update True ([], ?E) ?U =
        Inr ([] @ [(su_index ?U, length (choice_stages ?E))],
             ?E\<lparr>choice_stages := choice_stages ?E @
               [\<lparr>stage_name = su_name ?U, stage_content = [], stage_attachments = [],
                 status = StageOpen\<rparr>]\<rparr>)"
    by blast
  from first_sighting_and_priority [of "[(7, 0)]" ?U True "example_section StageOpen" 0] k(1) g(1)
  have c2: "apply_stage_update True ([(7, 0)], example_section StageOpen) ?U =
        (case stage_append_content True (example_section StageOpen) 0 (items (su_content ?U)) of
           Inl e \<Rightarrow> Inl e | Inr c \<Rightarrow> Inr ([(7, 0)], c))"
    by blast
  from first_sighting_and_priority [of "[(7, 0)]" ?A True "example_section StageOpen" 0] k(2) g(2,3)
  have c3: "apply_stage_update True ([(7, 0)], example_section StageOpen) ?A =
        (case add_attachments True (example_section StageOpen) 0 (items (su_attachments ?A)) of
           Inl e \<Rightarrow> Inl e | Inr c \<Rightarrow> Inr ([(7, 0)], c))"
    by blast
  from first_sighting_and_priority [of "[(7, 0)]" ?S True "example_section StageOpen" 0] k(3) g(4,5)
  have c4: "apply_stage_update True ([(7, 0)], example_section StageOpen) ?S =
        (if su_status ?S = Some ''completed''
         then Inr ([(7, 0)], close_stage_safely (example_section StageOpen) 0)
         else Inr ([(7, 0)], example_section StageOpen))"
    by blast
  show ?thesis
    unfolding c1 c2 c3 c4
    by (simp add: example_update_def example_section_def given_def items_def
      stage_append_content_def stage_add_attachment_def close_stage_safely_def
      is_open_def update_stage_def)
qed

text \<open>
  An update for an open section that carries both content and attachments: the content
  is appended and the attachments are not attached.
\<close>

theorem nested_updates_counterexample:
  "given (su_attachments \<lparr>su_index = 7, su_name = None, su_content = Some ''x'',
         su_attachments = Some [PStr ''file''], su_status = None\<rparr>)
   \<and> apply_stage_updates False
       ([], \<lparr>choice_stages = [], choice_attachments = [], choice_state = None\<rparr>)
       [\<lparr>su_index = 7, su_name = Some ''Searching'', su_content = None,
         su_attachments = None, su_status = None\<rparr>,
        \<lparr>su_index = 7, su_name = None, su_content = Some ''x'',
         su_attachments = Some [PStr ''file''], su_status = None\<rparr>]
     = Inr ([(7, 0)],
            \<lparr>choice_stages = [\<lparr>stage_name = Some ''Searching'', stage_content = ''x'',
                                stage_attachments = [], status = StageOpen\<rparr>],
              choice_attachments = [], choice_state = None\<rparr>)"
  by (simp add: apply_stage_update_def open_stage_def given_def items_def
      stage_append_content_def is_open_def update_stage_def)

text \<open>
  Claim C3, amended. Over a sequence of updates that starts with an empty map, every
  index gets exactly one section, opened at its first sighting with that update's
  name, and no two indices share a section; sections that existed before are not
  touched. A later update for a recorded index opens nothing and touches no other
  section. While the section is open, an update with content appends it, an update
  with attachments and no content attaches them, and an update with neither and the
  status \<open>completed\<close> closes the section. Once the section is completed, no update
  changes anything, and a repeated completion marker is accepted and changes nothing.
\<close>

theorem nested_section_updates:
  "(apply_stage_updates strict ([], ch) us = Inr (smap', ch') \<longrightarrow>
      distinct (map fst smap') \<and> distinct (map snd smap')
      \<and> fst ` set smap' = su_index ` set us
      \<and> length (choice_stages ch') = length (choice_stages ch) + length smap'
      \<and> (\<forall>idx r. (idx, r) \<in> set smap' \<longrightarrow>
            length (choice_stages ch) \<le> r \<and> r < length (choice_stages ch')
            \<and> (\<exists>u. find (\<lambda>u. su_index u = idx) us = Some u
                  \<and> stage_name (choice_stages ch' ! r) = su_name u))
      \<and> (\<forall>r<length (choice_stages ch). choice_stages ch' ! r = choice_stages ch ! r))
   \<and> (map_of smap (su_index u) = Some r \<longrightarrow>
       (\<forall>st'. apply_stage_update strict (smap, ch) u = Inr st' \<longrightarrow>
          fst st' = smap \<and> length (choice_stages (snd st')) = length (choice_stages ch)
          \<and> (\<forall>r'. r' \<noteq> r \<and> r' < length (choice_stages ch) \<longrightarrow>
                choice_stages (snd st') ! r' = choice_stages ch ! r'))
       \<and> (is_open ch r \<and> given (su_content u) \<longrightarrow>
            apply_stage_update strict (smap, ch) u =
              Inr (smap, update_stage ch r
                     (\<lambda>s. s\<lparr>stage_content := stage_content s @ items (su_content u)\<rparr>)))
       \<and> (is_open ch r \<and> \<not> given (su_content u) \<and> given (su_attachments u) \<longrightarrow>
            apply_stage_update strict (smap, ch) u =
              Inr (smap, update_stage ch r
                     (\<lambda>s. s\<lparr>stage_attachments := stage_attachments s @ items (su_attachments u)\<rparr>)))
       \<and> (is_open ch r \<and> \<not> given (su_content u) \<and> \<not> given (su_attachments u)
            \<and> su_status u = Some ''completed'' \<longrightarrow>
            apply_stage_update strict (smap, ch) u =
              Inr (smap, update_stage ch r (\<lambda>s. s\<lparr>status := StageCompleted\<rparr>)))
       \<and> (r < length (choice_stages ch) \<and> status (choice_stages ch ! r) = StageCompleted \<longrightarrow>
            (\<forall>st'. apply_stage_update strict (smap, ch) u = Inr st' \<longrightarrow> st' = (smap, ch))
            \<and> (\<not> strict \<or> (\<not> given (su_content u) \<and> \<not> given (su_attachments u)) \<longrightarrow>
                 apply_stage_update strict (smap, ch) u = Inr (smap, ch))))"
proof -
  have a: "apply_stage_updates strict ([], ch) us = Inr (smap', ch') \<longrightarrow>
      distinct (map fst smap') \<and> distinct (map snd smap')
      \<and> fst ` set smap' = su_index ` set us
      \<and> length (choice_stages ch') = length (choice_stages ch) + length smap'
      \<and> (\<forall>idx r. (idx, r) \<in> set smap' \<longrightarrow>
            length (choice_stages ch) \<le> r \<and> r < length (choice_stages ch')
            \<and> (\<exists>u. find (\<lambda>u. su_index u = idx) us = Some u
                  \<and> stage_name (choice_stages ch' ! r) = su_name u))
      \<and> (\<forall>r<length (choice_stages ch). choice_stages ch' ! r = choice_stages ch ! r)"
    using apply_stage_updates_from_empty by blast
  have b: "\<forall>st'. apply_stage_update strict (smap, ch) u = Inr st' \<longrightarrow>
          fst st' = smap \<and> length (choice_stages (snd st')) = length (choice_stages ch)
          \<and> (\<forall>r'. r' \<noteq> r \<and> r' < length (choice_stages ch) \<longrightarrow>
                choice_stages (snd st') ! r' = choice_stages ch ! r')"
    if "map_of smap (su_index u) = Some r"
    using apply_stage_update_known_frame[OF that] by blast
  note c = apply_stage_update_open[of smap u r ch strict]
  note d = apply_stage_update_completed[of smap u r ch strict]
  from a b c d show ?thesis by blast
qed

theorem nested_section_updates_witness:
  "apply_stage_updates False
       ([], \<lparr>choice_stages = [], choice_attachments = [], choice_state = None\<rparr>)
       [(example_update None None None)\<lparr>su_name := Some ''Searching''\<rparr>,
        example_update (Some ''x'') None None,
        example_update None None (Some ''completed''),
        example_update None None (Some ''completed''),
        (example_update (Some ''late'') None None)\<lparr>su_name := Some ''Again''\<rparr>]
     = Inr ([(7, 0)], example_section StageCompleted)
   \<and> find (\<lambda>u. su_index u = 7)
       [(example_update None None None)\<lparr>su_name := Some ''Searching''\<rparr>,
        example_update (Some ''x'') None None,
        example_update None None (Some ''completed''),
        example_update None None (Some ''completed''),
        (example_update (Some ''late'') None None)\<lparr>su_name := Some ''Again''\<rparr>]
     = Some ((example_update None None None)\<lparr>su_name := Some ''Searching''\<rparr>)
   \<and> map_of [(7, 0)] (su_index (example_update (Some ''y'') None None)) = Some 0
   \<and> is_open (example_section StageOpen) 0
   \<and> given (su_content (example_update (Some ''y'') None None))
   \<and> apply_stage_update True ([(7, 0)], example_section StageOpen)
        (example_update (Some ''y'') None None)
       = Inr ([(7, 0)],
              \<lparr>choice_stages = [\<lparr>stage_name = Some ''Searching'', stage_content = ''xy'',
                                  stage_attachments = [], status = StageOpen\<rparr>],
                choice_attachments = [], choice_state = None\<rparr>)
   \<and> status (choice_stages (example_section StageCompleted) ! 0) = StageCompleted
   \<and> apply_stage_update False ([(7, 0)], example_section StageCompleted)
        (example_update (Some ''late'') None None)
       = Inr ([(7, 0)], example_section StageCompleted)
   \<and> apply_stage_update True ([(7, 0)], example_section StageCompleted)
        (example_update None None (Some ''completed''))
       = Inr ([(7, 0)], example_section StageCompleted)"
proof -
  let ?Y = "example_update (Some ''y'') None None"
  let ?L = "example_update (Some ''late'') None None"
  let ?S = "example_update None None (Some ''completed'')"
  let ?O = "example_section StageOpen"
  let ?C = "example_section StageCompleted"
  have run: "apply_stage_updates False
       ([], \<lparr>choice_stages = [], choice_attachments = [], choice_state = None\<rparr>)
       [(example_update None None None)\<lparr>su_name := Some ''Searching''\<rparr>,
        example_update (Some ''x'') None None,
        example_update None None (Some ''completed''),
        example_update None None (Some ''completed''),
        (example_update (Some ''late'') None None)\<lparr>su_name := Some ''Again''\<rparr>]
     = Inr ([(7, 0)], ?C)"
    by (simp add: example_update_def example_section_def apply_stage_update_def open_stage_def
      given_def items_def stage_append_content_def close_stage_safely_def is_open_def
      update_stage_def)
  have fnd: "find (\<lambda>u. su_index u = 7)
       [(example_update None None None)\<lparr>su_name := Some ''Searching''\<rparr>,
        example_update (Some ''x'') None None,
        example_update None None (Some ''completed''),
        example_update None None (Some ''completed''),
        (example_update (Some ''late'') None None)\<lparr>su_name := Some ''Again''\<rparr>]
     = Some ((example_update None None None)\<lparr>su_name := Some ''Searching''\<rparr>)"
    by (simp add: example_update_def)
  have k: "map_of [(7, 0)] (su_index ?Y) = Some 0" "map_of [(7, 0)] (su_index ?L) = Some 0"
    "map_of [(7, 0)] (su_index ?S) = Some 0"
    by (simp_all add: example_update_def)
  have o: "is_open ?O 0" by (simp add: example_section_def is_open_def)
  have c: "0 < length (choice_stages ?C) \<and> status (choice_stages ?C ! 0) = StageCompleted"
    by (simp add: example_section_def)
  have g: "given (su_content ?Y)" "\<not> given (su_content ?S) \<and> \<not> given (su_attachments ?S)"
    by (simp_all add: example_update_def given_def)
  from nested_section_updates [of True ?O "[]" "[]" ?O "[(7, 0)]" ?Y 0] k(1) o g(1)
  have c1: "apply_stage_update True ([(7, 0)], ?O) ?Y =
      Inr ([(7, 0)], update_stage ?O 0
             (\<lambda>s. s\<lparr>stage_content := stage_content s @ items (su_content ?Y)\<rparr>))"
    by blast
  from nested_section_updates [of False ?C "[]" "[]" ?C "[(7, 0)]" ?L 0] k(2) c
  have c2: "apply_stage_update False ([(7, 0)], ?C) ?L = Inr ([(7, 0)], ?C)"
    by blast
  from nested_section_updates [of True ?C "[]" "[]" ?C "[(7, 0)]" ?S 0] k(3) c g(2)
  have c3: "apply_stage_update True ([(7, 0)], ?C) ?S = Inr ([(7, 0)], ?C)"
    by blast
  have c1': "update_stage ?O 0 (\<lambda>s. s\<lparr>stage_content := stage_content s @ items (su_content ?Y)\<rparr>)
      = \<lparr>choice_stages = [\<lparr>stage_name = Some ''Searching'', stage_content = ''xy'',
                                  stage_attachments = [], status = StageOpen\<rparr>],
                choice_attachments = [], choice_state = None\<rparr>"
    by (simp add: example_update_def example_section_def items_def update_stage_def)
  from run fnd k(1) o g(1) c c1 c1' c2 c3 show ?thesis by simp
qed

subsection \<open>The loop over the fragments\<close>

lemma items_not_given: "\<not> given x \<Longrightarrow> items x = []"
  by (cases x) (auto simp: given_def items_def)

lemma update_stage_append_nil:
  "update_stage ch r (\<lambda>s. s\<lparr>stage_content := stage_content s @ []\<rparr>) = ch"
  by (simp add: update_stage_def)

lemma forward_content_Inr:
  assumes "forward_content strict stg agg d = Inr agg1"
  shows "stages_map agg1 = stages_map agg \<and> agg_attachments agg1 = agg_attachments agg
    \<and> agg_state agg1 = agg_state agg
    \<and> agg_content agg1 = agg_content agg @ items (delta_content d)
    \<and> (is_open (agg_choice agg) stg \<longrightarrow>
         agg_choice agg1 = update_stage (agg_choice agg) stg
           (\<lambda>s. s\<lparr>stage_content := stage_content s @ items (delta_content d)\<rparr>))
    \<and> (\<not> is_open (agg_choice agg) stg \<longrightarrow> agg_choice agg1 = agg_choice agg)"
proof (cases "given (delta_content d)")
  case True
  with assms obtain c where a: "stage_append_content strict (agg_choice agg) stg (items (delta_content d)) = Inr c"
    and b: "agg1 = agg\<lparr>agg_content := agg_content agg @ items (delta_content d), agg_choice := c\<rparr>"
    by (auto simp: forward_content_def split: sum.splits)
  from a have "is_open (agg_choice agg) stg \<longrightarrow> c = update_stage (agg_choice agg) stg
           (\<lambda>s. s\<lparr>stage_content := stage_content s @ items (delta_content d)\<rparr>)"
    by (auto simp: stage_append_content_open)
  moreover from a have "\<not> is_open (agg_choice agg) stg \<longrightarrow> c = agg_choice agg"
    using stage_append_content_closed by blast
  ultimately show ?thesis using b by simp
next
  case False
  with assms have "agg1 = agg" by (simp add: forward_content_def)
  with False show ?thesis by (simp add: items_not_given update_stage_id)
qed

lemma collect_custom_content_Inr:
  assumes inv: "map_inv n0 (stages_map agg) (agg_choice agg)"
    and run: "collect_custom_content strict agg cc = Inr agg'"
  shows "map_inv n0 (stages_map agg') (agg_choice agg')
    \<and> agg_content agg' = agg_content agg
    \<and> length (choice_stages (agg_choice agg)) \<le> length (choice_stages (agg_choice agg'))
    \<and> (\<forall>r<n0. choice_stages (agg_choice agg') ! r = choice_stages (agg_choice agg) ! r)
    \<and> choice_attachments (agg_choice agg') = choice_attachments (agg_choice agg)
    \<and> choice_state (agg_choice agg') = choice_state (agg_choice agg)"
proof -
  define agg1 where "agg1 = (if given (dcc_attachments cc)
                  then agg\<lparr>agg_attachments := agg_attachments agg @ items (dcc_attachments cc)\<rparr>
                  else agg)"
  define agg2 where "agg2 = (if truthy (dcc_state cc) then agg1\<lparr>agg_state := dcc_state cc\<rparr> else agg1)"
  have same: "stages_map agg2 = stages_map agg" "agg_choice agg2 = agg_choice agg"
    "agg_content agg2 = agg_content agg"
    by (simp_all add: agg1_def agg2_def)
  have unf: "collect_custom_content strict agg cc =
      (if given (dcc_stages cc)
       then (case apply_stage_updates strict (stages_map agg2, agg_choice agg2)
                   (items (dcc_stages cc)) of
               Inl e \<Rightarrow> Inl e
             | Inr st \<Rightarrow> Inr (agg2\<lparr>stages_map := fst st, agg_choice := snd st\<rparr>))
       else Inr agg2)"
    by (simp only: collect_custom_content_def Let_def agg1_def agg2_def)
  show ?thesis
  proof (cases "given (dcc_stages cc)")
    case True
    with run unf obtain st where
      a: "apply_stage_updates strict (stages_map agg2, agg_choice agg2) (items (dcc_stages cc)) = Inr st"
      and b: "agg' = agg2\<lparr>stages_map := fst st, agg_choice := snd st\<rparr>"
      by (auto split: sum.splits)
    obtain sm c where st: "st = (sm, c)" by (cases st)
    from inv same have "map_inv n0 (stages_map agg2) (agg_choice agg2)" by simp
    from apply_stage_updates_inv[OF this a[unfolded st]] b st same show ?thesis by simp
  next
    case False
    with run unf have "agg' = agg2" by simp
    with inv same show ?thesis by simp
  qed
qed

lemma map_inv_cong:
  "map_inv n0 smap ch \<Longrightarrow> length (choice_stages ch') = length (choice_stages ch) \<Longrightarrow>
     map_inv n0 smap ch'"
  by (simp add: map_inv_def)

lemma process_chunk_Inr:
  assumes inv: "map_inv n0 (stages_map agg) (agg_choice agg)" and stg: "stg < n0"
    and run: "process_chunk strict stg agg c = Inr agg'"
  shows "map_inv n0 (stages_map agg') (agg_choice agg')
    \<and> agg_content agg' = agg_content agg @ chunk_text c
    \<and> (\<forall>r<n0. r \<noteq> stg \<longrightarrow>
          choice_stages (agg_choice agg') ! r = choice_stages (agg_choice agg) ! r)
    \<and> (is_open (agg_choice agg) stg \<longrightarrow>
          choice_stages (agg_choice agg') ! stg =
            (choice_stages (agg_choice agg) ! stg)
              \<lparr>stage_content := stage_content (choice_stages (agg_choice agg) ! stg) @ chunk_text c\<rparr>)
    \<and> choice_attachments (agg_choice agg') = choice_attachments (agg_choice agg)
    \<and> choice_state (agg_choice agg') = choice_state (agg_choice agg)"
proof (cases "chunk_choices c")
  case Nil
  with run have "agg' = agg" by (simp add: process_chunk_def)
  with Nil inv show ?thesis by (simp add: chunk_text_def)
next
  case (Cons first rest)
  with run obtain d where first: "first = Some d"
    by (cases first) (auto simp: process_chunk_def)
  with Cons run obtain agg1 where
    f: "forward_content strict stg agg d = Inr agg1"
    and rest: "(case delta_custom_content d of
                 None \<Rightarrow> Inr agg1
               | Some cc \<Rightarrow> collect_custom_content strict agg1 cc) = Inr agg'"
    by (auto simp: process_chunk_def split: sum.splits)
  from Cons first have ct: "chunk_text c = items (delta_content d)" by (simp add: chunk_text_def)
  note fw = forward_content_Inr[OF f]
  from inv have n0: "n0 \<le> length (choice_stages (agg_choice agg))" by (simp add: map_inv_def)
  have len1: "length (choice_stages (agg_choice agg1)) = length (choice_stages (agg_choice agg))"
    using fw by (cases "is_open (agg_choice agg) stg") simp_all
  have att1: "choice_attachments (agg_choice agg1) = choice_attachments (agg_choice agg)"
    "choice_state (agg_choice agg1) = choice_state (agg_choice agg)"
    using fw by (cases "is_open (agg_choice agg) stg"; simp)+
  have other1: "\<forall>r<n0. r \<noteq> stg \<longrightarrow>
      choice_stages (agg_choice agg1) ! r = choice_stages (agg_choice agg) ! r"
    using fw n0 by (cases "is_open (agg_choice agg) stg") (simp_all add: nth_update_stage)
  have top1: "is_open (agg_choice agg) stg \<longrightarrow>
      choice_stages (agg_choice agg1) ! stg =
        (choice_stages (agg_choice agg) ! stg)
          \<lparr>stage_content := stage_content (choice_stages (agg_choice agg) ! stg) @ chunk_text c\<rparr>"
    using fw ct by (simp add: nth_update_stage is_open_def)
  from inv fw len1 have inv1: "map_inv n0 (stages_map agg1) (agg_choice agg1)"
    by (simp add: map_inv_def)
  show ?thesis
  proof (cases "delta_custom_content d")
    case None
    with rest have "agg' = agg1" by simp
    with inv1 fw ct other1 top1 att1 show ?thesis by simp
  next
    case (Some cc)
    with rest have "collect_custom_content strict agg1 cc = Inr agg'" by simp
    from collect_custom_content_Inr[OF inv1 this] fw ct other1 top1 att1 stg
    show ?thesis by simp
  qed
qed

lemma read_chunks_Inr:
  "map_inv n0 (stages_map agg) (agg_choice agg) \<Longrightarrow> stg < n0 \<Longrightarrow>
   read_chunks strict stg agg chunks = Inr agg' \<Longrightarrow>
     map_inv n0 (stages_map agg') (agg_choice agg')
     \<and> agg_content agg' = agg_content agg @ concat (map chunk_text chunks)
     \<and> (\<forall>r<n0. r \<noteq> stg \<longrightarrow>
           choice_stages (agg_choice agg') ! r = choice_stages (agg_choice agg) ! r)
     \<and> (is_open (agg_choice agg) stg \<longrightarrow>
           choice_stages (agg_choice agg') ! stg =
             (choice_stages (agg_choice agg) ! stg)
               \<lparr>stage_content := stage_content (choice_stages (agg_choice agg) ! stg)
                    @ concat (map chunk_text chunks)\<rparr>)
     \<and> choice_attachments (agg_choice agg') = choice_attachments (agg_choice agg)
     \<and> choice_state (agg_choice agg') = choice_state (agg_choice agg)"
proof (induction chunks arbitrary: agg)
  case Nil
  then show ?case by simp
next
  case (Cons c cs)
  from Cons.prems(3) obtain agg1 where
    s: "process_chunk strict stg agg c = Inr agg1"
    and r: "read_chunks strict stg agg1 cs = Inr agg'"
    by (auto split: sum.splits)
  note a = process_chunk_Inr[OF Cons.prems(1,2) s]
  from a have inv1: "map_inv n0 (stages_map agg1) (agg_choice agg1)" by blast
  note b = Cons.IH[OF inv1 Cons.prems(2) r]
  from Cons.prems(1,2) have lt: "stg < length (choice_stages (agg_choice agg))"
    by (simp add: map_inv_def)
  from inv1 Cons.prems(2) have lt1: "stg < length (choice_stages (agg_choice agg1))"
    by (simp add: map_inv_def)
  have o: "is_open (agg_choice agg) stg \<longrightarrow> is_open (agg_choice agg1) stg"
    using a lt1 by (simp add: is_open_def)
  from a b o show ?case by (auto simp: is_open_def)
qed

subsection \<open>After the loop\<close>

lemma close_refs:
  "length (choice_stages (fold (\<lambda>r c. close_stage_safely c r) rs ch)) = length (choice_stages ch)
   \<and> (\<forall>r<length (choice_stages ch).
        choice_stages (fold (\<lambda>r c. close_stage_safely c r) rs ch) ! r =
          (if r \<in> set rs then (choice_stages ch ! r)\<lparr>status := StageCompleted\<rparr>
           else choice_stages ch ! r))
   \<and> choice_attachments (fold (\<lambda>r c. close_stage_safely c r) rs ch) = choice_attachments ch
   \<and> choice_state (fold (\<lambda>r c. close_stage_safely c r) rs ch) = choice_state ch"
proof (induction rs arbitrary: ch)
  case Nil
  then show ?case by simp
next
  case (Cons r1 rs)
  let ?c1 = "close_stage_safely ch r1"
  have l1: "length (choice_stages ?c1) = length (choice_stages ch)"
    by (simp add: close_stage_safely_def)
  have n1: "\<forall>r<length (choice_stages ch). choice_stages ?c1 ! r =
      (if r = r1 then (choice_stages ch ! r)\<lparr>status := StageCompleted\<rparr> else choice_stages ch ! r)"
    by (simp add: close_stage_safely_def nth_update_stage)
  have r1: "choice_attachments ?c1 = choice_attachments ch" "choice_state ?c1 = choice_state ch"
    by (simp_all add: close_stage_safely_def)
  from Cons.IH[of ?c1] l1 n1 r1 show ?case by auto
qed

lemma add_attachments_choice:
  "choice_stages (fold (\<lambda>a c. choice_add_attachment c a) as ch) = choice_stages ch
   \<and> choice_attachments (fold (\<lambda>a c. choice_add_attachment c a) as ch) = choice_attachments ch @ as
   \<and> choice_state (fold (\<lambda>a c. choice_add_attachment c a) as ch) = choice_state ch"
  by (induction as arbitrary: ch) (simp_all add: choice_add_attachment_def)

lemma finish_stages:
  assumes inv: "map_inv n0 (stages_map agg) (agg_choice agg)"
  shows "length (choice_stages (snd (finish agg))) = length (choice_stages (agg_choice agg))
    \<and> (\<forall>r<length (choice_stages (agg_choice agg)).
         choice_stages (snd (finish agg)) ! r =
           (if n0 \<le> r then (choice_stages (agg_choice agg) ! r)\<lparr>status := StageCompleted\<rparr>
            else choice_stages (agg_choice agg) ! r))
    \<and> choice_attachments (snd (finish agg)) = choice_attachments (agg_choice agg) @ agg_attachments agg
    \<and> choice_state (snd (finish agg)) = Some (gpa_state (agg_state agg))
    \<and> fst (finish agg) = \<lparr>role = ASSISTANT, content = Some (agg_content agg), custom_content = None\<rparr>"
proof -
  from inv have ms: "set (map snd (stages_map agg)) = {n0..<length (choice_stages (agg_choice agg))}"
    by (simp add: map_inv_def)
  note c = close_refs[of "map snd (stages_map agg)" "agg_choice agg"]
  note a = add_attachments_choice[of "agg_attachments agg" "close_all (stages_map agg) (agg_choice agg)"]
  from c a ms show ?thesis
    by (simp add: finish_def set_state_def close_all_def)
qed

lemma add_attachments_lenient: "\<exists>c. add_attachments False ch r as = Inr c"
  by (induction as arbitrary: ch) (simp_all add: stage_add_attachment_def)

lemma apply_stage_update_lenient: "\<exists>st'. apply_stage_update False st u = Inr st'"
proof -
  obtain c where "add_attachments False (snd st) (the (map_of (fst st) (su_index u)))
      (items (su_attachments u)) = Inr c"
    using add_attachments_lenient by blast
  then show ?thesis
    by (cases "map_of (fst st) (su_index u)")
       (auto simp: apply_stage_update_def stage_append_content_def)
qed

lemma apply_stage_updates_lenient: "\<exists>st'. apply_stage_updates False st us = Inr st'"
proof (induction us arbitrary: st)
  case Nil
  then show ?case by simp
next
  case (Cons u us)
  obtain st1 where "apply_stage_update False st u = Inr st1"
    using apply_stage_update_lenient by blast
  with Cons.IH[of st1] show ?case by simp
qed

lemma process_chunk_lenient:
  "well_formed c \<Longrightarrow> \<exists>agg'. process_chunk False stg agg c = Inr agg'"
proof (cases "chunk_choices c")
  case Nil
  then show ?thesis by (simp add: process_chunk_def)
next
  case (Cons first rest)
  assume "well_formed c"
  with Cons obtain d where first: "first = Some d" by (auto simp: well_formed_def)
  have "\<exists>agg1. forward_content False stg agg d = Inr agg1"
    by (cases "is_open (agg_choice agg) stg")
       (simp_all add: forward_content_def stage_append_content_def)
  then obtain agg1 where f: "forward_content False stg agg d = Inr agg1" by blast
  have "\<exists>agg'. collect_custom_content False agg1 cc = Inr agg'" for cc
  proof -
    obtain st' where "apply_stage_updates False
        (stages_map (if truthy (dcc_state cc)
           then (if given (dcc_attachments cc)
                 then agg1\<lparr>agg_attachments := agg_attachments agg1 @ items (dcc_attachments cc)\<rparr>
                 else agg1)\<lparr>agg_state := dcc_state cc\<rparr>
           else (if given (dcc_attachments cc)
                 then agg1\<lparr>agg_attachments := agg_attachments agg1 @ items (dcc_attachments cc)\<rparr>
                 else agg1)),
         agg_choice (if truthy (dcc_state cc)
           then (if given (dcc_attachments cc)
                 then agg1\<lparr>agg_attachments := agg_attachments agg1 @ items (dcc_attachments cc)\<rparr>
                 else agg1)\<lparr>agg_state := dcc_state cc\<rparr>
           else (if given (dcc_attachments cc)
                 then agg1\<lparr>agg_attachments := agg_attachments agg1 @ items (dcc_attachments cc)\<rparr>
                 else agg1)))
        (items (dcc_stages cc)) = Inr st'"
      using apply_stage_updates_lenient by blast
    then show ?thesis
      by (simp only: collect_custom_content_def Let_def) (simp split: if_splits)
  qed
  with Cons first f show ?thesis
    by (cases "delta_custom_content d") (auto simp: process_chunk_def)
qed

lemma read_chunks_lenient:
  "\<forall>c\<in>set chunks. well_formed c \<Longrightarrow> \<exists>agg'. read_chunks False stg agg chunks = Inr agg'"
proof (induction chunks arbitrary: agg)
  case Nil
  then show ?case by simp
next
  case (Cons c cs)
  then obtain agg1 where "process_chunk False stg agg c = Inr agg1"
    using process_chunk_lenient[of c stg agg] by auto
  with Cons.IH[of agg1] Cons.prems show ?case by simp
qed

lemma process_chunk_map_inv:
  assumes inv: "map_inv n0 (stages_map agg) (agg_choice agg)"
    and run: "process_chunk strict stg agg c = Inr agg'"
  shows "map_inv n0 (stages_map agg') (agg_choice agg')"
proof (cases "chunk_choices c")
  case Nil
  with run inv show ?thesis by (simp add: process_chunk_def)
next
  case (Cons first rest)
  with run obtain d where first: "first = Some d"
    by (cases first) (auto simp: process_chunk_def)
  with Cons run obtain agg1 where
    f: "forward_content strict stg agg d = Inr agg1"
    and rest: "(case delta_custom_content d of
                 None \<Rightarrow> Inr agg1
               | Some cc \<Rightarrow> collect_custom_content strict agg1 cc) = Inr agg'"
    by (auto simp: process_chunk_def split: sum.splits)
  note fw = forward_content_Inr[OF f]
  have "length (choice_stages (agg_choice agg1)) = length (choice_stages (agg_choice agg))"
    using fw by (cases "is_open (agg_choice agg) stg") simp_all
  with inv fw have inv1: "map_inv n0 (stages_map agg1) (agg_choice agg1)"
    by (simp add: map_inv_def)
  show ?thesis
  proof (cases "delta_custom_content d")
    case None
    with rest inv1 show ?thesis by simp
  next
    case (Some cc)
    with rest have "collect_custom_content strict agg1 cc = Inr agg'" by simp
    from collect_custom_content_Inr[OF inv1 this] show ?thesis by blast
  qed
qed

lemma read_chunks_map_inv:
  "map_inv n0 (stages_map agg) (agg_choice agg) \<Longrightarrow>
   read_chunks strict stg agg chunks = Inr agg' \<Longrightarrow>
     map_inv n0 (stages_map agg') (agg_choice agg')"
proof (induction chunks arbitrary: agg)
  case Nil
  then show ?case by simp
next
  case (Cons c cs)
  from Cons.prems(2) obtain agg1 where
    s: "process_chunk strict stg agg c = Inr agg1"
    and r: "read_chunks strict stg agg1 cs = Inr agg'"
    by (auto split: sum.splits)
  from Cons.IH[OF process_chunk_map_inv[OF Cons.prems(1) s] r] show ?case .
qed

lemma response_Inr:
  assumes "response strict create ch stg req ai = Inr (m, ch')"
  shows "\<exists>msgs chunks agg. prepare_gpa_messages req ai = Inr msgs \<and> create msgs = Inr chunks
    \<and> read_chunks strict stg (initial_aggregation ch) chunks = Inr agg
    \<and> m = fst (finish agg) \<and> ch' = snd (finish agg)"
  using assms by (auto simp: response_def split: sum.splits)

lemma initial_inv:
  "map_inv (length (choice_stages ch)) (stages_map (initial_aggregation ch))
     (agg_choice (initial_aggregation ch))"
  by (simp add: initial_aggregation_def map_inv_def)

subsection \<open>The worked example\<close>

lemma example_messages:
  "prepare_gpa_messages example_request None =
     Inr [PDict [(''role'', PStr ''user''), (''content'', PStr ''q0'')],
          PDict [(''role'', PStr ''assistant''), (''content'', PStr ''a0''),
                 (''custom_content'', PDict [(''state'', PInt 1)])],
          PDict [(''role'', PStr ''user''), (''content'', PStr ''q1'')]]"
  by (simp add: prepare_gpa_messages_def example_request_def restore_message_def gpa_state_def
      IS_GPA_def GPA_MESSAGES_def dict_get_def message_dict_def custom_content_dict_def
      opt_item_def role_val_def previous_message_def last_user_entry_def instructions_given_def)

lemma example_read:
  "read_chunks True 0 (initial_aggregation example_choice) example_stream =
     Inr \<lparr>agg_content = ''Hello'', agg_attachments = [], agg_state = PInt 2,
          stages_map = [(0, 1)],
          agg_choice = \<lparr>choice_stages =
              [\<lparr>stage_name = Some ''Call GPA Agent'', stage_content = ''Hello'',
                 stage_attachments = [], status = StageOpen\<rparr>,
               \<lparr>stage_name = Some ''Searching'', stage_content = [],
                 stage_attachments = [], status = StageOpen\<rparr>],
            choice_attachments = [], choice_state = None\<rparr>\<rparr>"
  by (simp add: example_stream_def example_choice_def initial_aggregation_def process_chunk_def
      forward_content_def collect_custom_content_def apply_stage_update_def open_stage_def
      stage_append_content_def is_open_def update_stage_def given_def items_def)

lemma example_response:
  "response True (\<lambda>msgs. Inr example_stream) example_choice 0 example_request None =
     Inr (\<lparr>role = ASSISTANT, content = Some ''Hello'', custom_content = None\<rparr>,
          \<lparr>choice_stages =
              [\<lparr>stage_name = Some ''Call GPA Agent'', stage_content = ''Hello'',
                 stage_attachments = [], status = StageOpen\<rparr>,
               \<lparr>stage_name = Some ''Searching'', stage_content = [],
                 stage_attachments = [], status = StageCompleted\<rparr>],
            choice_attachments = [], choice_state = Some (gpa_state (PInt 2))\<rparr>)"
  by (simp add: response_def example_messages example_read finish_def close_all_def
      close_stage_safely_def update_stage_def set_state_def)

lemma example_response_pair:
  "response True (\<lambda>msgs. Inr example_stream) example_choice 0 example_request None
     = Inr (fst example_result, snd example_result)"
  by (simp add: example_response example_result_def)

text \<open>
  Claim C4. When the general-purpose gateway returns, every stage that was opened on
  the response surface during the call is completed, whatever the fragments were and
  whether or not any of them carried a completion marker. With a sink that ignores
  late updates the gateway returns for every stream whose fragments have their delta.
\<close>

theorem forced_close:
  "(response strict create ch stg req ai = Inr (m, ch') \<longrightarrow>
      length (choice_stages ch) \<le> length (choice_stages ch')
      \<and> (\<forall>r. length (choice_stages ch) \<le> r \<and> r < length (choice_stages ch') \<longrightarrow>
            status (choice_stages ch' ! r) = StageCompleted))
   \<and> (prepare_gpa_messages req ai = Inr msgs \<and> create msgs = Inr chunks
        \<and> (\<forall>c\<in>set chunks. well_formed c) \<longrightarrow>
       (\<exists>res. response False create ch stg req ai = Inr res))"
proof -
  have a: "length (choice_stages ch) \<le> length (choice_stages ch')
      \<and> (\<forall>r. length (choice_stages ch) \<le> r \<and> r < length (choice_stages ch') \<longrightarrow>
            status (choice_stages ch' ! r) = StageCompleted)"
    if ok: "response strict create ch stg req ai = Inr (m, ch')"
  proof -
    from response_Inr[OF ok] obtain chunks agg where
      rc: "read_chunks strict stg (initial_aggregation ch) chunks = Inr agg"
      and c: "ch' = snd (finish agg)" by blast
    from read_chunks_map_inv[OF initial_inv rc]
    have inv: "map_inv (length (choice_stages ch)) (stages_map agg) (agg_choice agg)" .
    then have le: "length (choice_stages ch) \<le> length (choice_stages (agg_choice agg))"
      by (simp add: map_inv_def)
    from finish_stages[OF inv] c le show ?thesis by simp
  qed
  have b: "\<exists>res. response False create ch stg req ai = Inr res"
    if "prepare_gpa_messages req ai = Inr msgs \<and> create msgs = Inr chunks
        \<and> (\<forall>c\<in>set chunks. well_formed c)"
  proof -
    from that read_chunks_lenient[of chunks stg "initial_aggregation ch"]
    obtain agg where "read_chunks False stg (initial_aggregation ch) chunks = Inr agg" by blast
    with that show ?thesis by (simp add: response_def)
  qed
  from a b show ?thesis by blast
qed

theorem forced_close_witness:
  "response True (\<lambda>msgs. Inr example_stream) example_choice 0 example_request None
     = Inr example_result
   \<and> length (choice_stages example_choice) = 1
   \<and> length (choice_stages (snd example_result)) = 2
   \<and> status (choice_stages (snd example_result) ! 1) = StageCompleted
   \<and> list_all well_formed example_stream
   \<and> (\<exists>res. response False (\<lambda>msgs. Inr example_stream) example_choice 0 example_request None
              = Inr res)"
proof -
  have r: "response True (\<lambda>msgs. Inr example_stream) example_choice 0 example_request None
     = Inr (fst example_result, snd example_result)"
    by (rule example_response_pair)
  have l: "length (choice_stages example_choice) = 1" "length (choice_stages (snd example_result)) = 2"
    by (simp_all add: example_choice_def example_result_def)
  from forced_close
    [of True "\<lambda>msgs. Inr example_stream" example_choice 0 example_request None
       "fst example_result" "snd example_result"] r
  have a: "\<forall>r. length (choice_stages example_choice) \<le> r
      \<and> r < length (choice_stages (snd example_result)) \<longrightarrow>
      status (choice_stages (snd example_result) ! r) = StageCompleted"
    by blast
  with l have s: "status (choice_stages (snd example_result) ! 1) = StageCompleted" by simp
  have w: "\<forall>c\<in>set example_stream. well_formed c"
    by (simp add: example_stream_def well_formed_def)
  from forced_close
    [of False "\<lambda>msgs. Inr example_stream" example_choice 0 example_request None
       "fst example_result" "snd example_result"
       "[PDict [(''role'', PStr ''user''), (''content'', PStr ''q0'')],
          PDict [(''role'', PStr ''assistant''), (''content'', PStr ''a0''),
                 (''custom_content'', PDict [(''state'', PInt 1)])],
          PDict [(''role'', PStr ''user''), (''content'', PStr ''q1'')]]" example_stream]
    example_messages w
  have t: "\<exists>res. response False (\<lambda>msgs. Inr example_stream) example_choice 0 example_request None
              = Inr res"
    by blast
  from r l s w t show ?thesis by (simp add: list_all_iff)
qed

text \<open>
  Claim C2. When the general-purpose gateway returns, the content of the returned
  message is the concatenation, in arrival order, of the texts of the fragments. If
  the stage handed over by the coordinator is open, that stage has received the same
  concatenation after its previous content, and every other stage that existed before
  the call is unchanged. Fragment by fragment: a fragment with text appends the text to
  the accumulated content and to that stage, and changes no other stage.
\<close>

theorem content_aggregation:
  "(response strict create ch stg req ai = Inr (m, ch') \<longrightarrow>
      (\<exists>msgs chunks. prepare_gpa_messages req ai = Inr msgs \<and> create msgs = Inr chunks
         \<and> role m = ASSISTANT
         \<and> content m = Some (concat (map chunk_text chunks))
         \<and> (is_open ch stg \<longrightarrow>
               choice_stages ch' ! stg =
                 (choice_stages ch ! stg)
                   \<lparr>stage_content := stage_content (choice_stages ch ! stg)
                        @ concat (map chunk_text chunks)\<rparr>
               \<and> (\<forall>r<length (choice_stages ch). r \<noteq> stg \<longrightarrow>
                     choice_stages ch' ! r = choice_stages ch ! r))))
   \<and> (is_open (agg_choice agg) stg \<and> given (delta_content d) \<longrightarrow>
        forward_content strict stg agg d =
          Inr (agg\<lparr>agg_content := agg_content agg @ items (delta_content d),
                   agg_choice := update_stage (agg_choice agg) stg
                     (\<lambda>s. s\<lparr>stage_content := stage_content s @ items (delta_content d)\<rparr>)\<rparr>)
        \<and> (\<forall>r<length (choice_stages (agg_choice agg)). r \<noteq> stg \<longrightarrow>
              choice_stages (update_stage (agg_choice agg) stg
                     (\<lambda>s. s\<lparr>stage_content := stage_content s @ items (delta_content d)\<rparr>)) ! r
                = choice_stages (agg_choice agg) ! r))"
proof -
  have a: "\<exists>msgs chunks. prepare_gpa_messages req ai = Inr msgs \<and> create msgs = Inr chunks
         \<and> role m = ASSISTANT
         \<and> content m = Some (concat (map chunk_text chunks))
         \<and> (is_open ch stg \<longrightarrow>
               choice_stages ch' ! stg =
                 (choice_stages ch ! stg)
                   \<lparr>stage_content := stage_content (choice_stages ch ! stg)
                        @ concat (map chunk_text chunks)\<rparr>
               \<and> (\<forall>r<length (choice_stages ch). r \<noteq> stg \<longrightarrow>
                     choice_stages ch' ! r = choice_stages ch ! r))"
    if ok: "response strict create ch stg req ai = Inr (m, ch')"
  proof -
    let ?n0 = "length (choice_stages ch)"
    from response_Inr[OF ok] obtain msgs chunks agg where
      p: "prepare_gpa_messages req ai = Inr msgs" and cr: "create msgs = Inr chunks"
      and rc: "read_chunks strict stg (initial_aggregation ch) chunks = Inr agg"
      and m: "m = fst (finish agg)" and c: "ch' = snd (finish agg)" by blast
    from read_chunks_map_inv[OF initial_inv rc]
    have inv: "map_inv ?n0 (stages_map agg) (agg_choice agg)" .
    then have le: "?n0 \<le> length (choice_stages (agg_choice agg))" by (simp add: map_inv_def)
    note fin = finish_stages[OF inv]
    have ini: "agg_content (initial_aggregation ch) = []" "agg_choice (initial_aggregation ch) = ch"
      by (simp_all add: initial_aggregation_def)
    have top: "is_open ch stg \<longrightarrow>
               choice_stages ch' ! stg =
                 (choice_stages ch ! stg)
                   \<lparr>stage_content := stage_content (choice_stages ch ! stg)
                        @ concat (map chunk_text chunks)\<rparr>
               \<and> (\<forall>r<length (choice_stages ch). r \<noteq> stg \<longrightarrow>
                     choice_stages ch' ! r = choice_stages ch ! r)"
    proof
      assume o: "is_open ch stg"
      then have lt: "stg < ?n0" by (simp add: is_open_def)
      note rd = read_chunks_Inr[OF initial_inv lt rc]
      from rd o ini
      have "choice_stages (agg_choice agg) ! stg =
                 (choice_stages ch ! stg)
                   \<lparr>stage_content := stage_content (choice_stages ch ! stg)
                        @ concat (map chunk_text chunks)\<rparr>" by simp
      with fin c lt le have t1: "choice_stages ch' ! stg =
                 (choice_stages ch ! stg)
                   \<lparr>stage_content := stage_content (choice_stages ch ! stg)
                        @ concat (map chunk_text chunks)\<rparr>" by simp
      from rd ini fin c le
      have t2: "\<forall>r<length (choice_stages ch). r \<noteq> stg \<longrightarrow>
                     choice_stages ch' ! r = choice_stages ch ! r" by simp
      from t1 t2 show "choice_stages ch' ! stg =
                 (choice_stages ch ! stg)
                   \<lparr>stage_content := stage_content (choice_stages ch ! stg)
                        @ concat (map chunk_text chunks)\<rparr>
               \<and> (\<forall>r<length (choice_stages ch). r \<noteq> stg \<longrightarrow>
                     choice_stages ch' ! r = choice_stages ch ! r)" by blast
    qed
    have tx: "agg_content agg = concat (map chunk_text chunks)"
    proof (cases "stg < ?n0")
      case True
      from read_chunks_Inr[OF initial_inv True rc] ini show ?thesis by simp
    next
      case False
      have "\<And>a a'. read_chunks strict stg a chunks = Inr a' \<Longrightarrow>
          agg_content a' = agg_content a @ concat (map chunk_text chunks)"
      proof (induction chunks)
        case Nil
        then show ?case by simp
      next
        case (Cons x xs)
        from Cons.prems obtain a1 where s: "process_chunk strict stg a x = Inr a1"
          and r: "read_chunks strict stg a1 xs = Inr a'" by (auto split: sum.splits)
        have "agg_content a1 = agg_content a @ chunk_text x"
        proof (cases "chunk_choices x")
          case Nil
          with s show ?thesis by (simp add: process_chunk_def chunk_text_def)
        next
          case (Cons first rest)
          with s obtain d where first: "first = Some d"
            by (cases first) (auto simp: process_chunk_def)
          with Cons s obtain a0 where
            f: "forward_content strict stg a d = Inr a0"
            and rest: "(case delta_custom_content d of
                 None \<Rightarrow> Inr a0
               | Some cc \<Rightarrow> collect_custom_content strict a0 cc) = Inr a1"
            by (auto simp: process_chunk_def split: sum.splits)
          have "agg_content a1 = agg_content a0"
          proof (cases "delta_custom_content d")
            case None
            with rest show ?thesis by simp
          next
            case (Some cc)
            with rest have "collect_custom_content strict a0 cc = Inr a1" by simp
            then show ?thesis
              by (auto simp: collect_custom_content_def Let_def split: if_splits sum.splits)
          qed
          with forward_content_Inr[OF f] Cons first show ?thesis
            by (simp add: chunk_text_def)
        qed
        with Cons.IH[OF r] show ?case by simp
      qed
      from this[OF rc] ini show ?thesis by simp
    qed
    from p cr m fin tx top show ?thesis by auto
  qed
  have b: "forward_content strict stg agg d =
          Inr (agg\<lparr>agg_content := agg_content agg @ items (delta_content d),
                   agg_choice := update_stage (agg_choice agg) stg
                     (\<lambda>s. s\<lparr>stage_content := stage_content s @ items (delta_content d)\<rparr>)\<rparr>)
        \<and> (\<forall>r<length (choice_stages (agg_choice agg)). r \<noteq> stg \<longrightarrow>
              choice_stages (update_stage (agg_choice agg) stg
                     (\<lambda>s. s\<lparr>stage_content := stage_content s @ items (delta_content d)\<rparr>)) ! r
                = choice_stages (agg_choice agg) ! r)"
    if "is_open (agg_choice agg) stg \<and> given (delta_content d)"
    using that by (simp add: forward_content_def stage_append_content_open nth_update_stage)
  from a b show ?thesis by blast
qed

theorem content_aggregation_witness:
  "response True (\<lambda>msgs. Inr example_stream) example_choice 0 example_request None
     = Inr example_result
   \<and> is_open example_choice 0
   \<and> concat (map chunk_text example_stream) = ''Hello''
   \<and> content (fst example_result) = Some ''Hello''
   \<and> stage_content (choice_stages (snd example_result) ! 0) = ''Hello''
   \<and> given (delta_content \<lparr>delta_content = Some ''Hel'', delta_custom_content = None\<rparr>)
   \<and> forward_content True 0 (initial_aggregation example_choice)
        \<lparr>delta_content = Some ''Hel'', delta_custom_content = None\<rparr>
      = Inr \<lparr>agg_content = ''Hel'', agg_attachments = [], agg_state = PNone, stages_map = [],
             agg_choice = \<lparr>choice_stages =
                 [\<lparr>stage_name = Some ''Call GPA Agent'', stage_content = ''Hel'',
                    stage_attachments = [], status = StageOpen\<rparr>],
               choice_attachments = [], choice_state = None\<rparr>\<rparr>"
proof -
  let ?d = "\<lparr>delta_content = Some ''Hel'', delta_custom_content = None\<rparr>"
  have r: "response True (\<lambda>msgs. Inr example_stream) example_choice 0 example_request None
     = Inr (fst example_result, snd example_result)"
    by (rule example_response_pair)
  have o: "is_open example_choice 0" by (simp add: example_choice_def is_open_def)
  have o': "is_open (agg_choice (initial_aggregation example_choice)) 0"
    by (simp add: example_choice_def is_open_def initial_aggregation_def)
  have g: "given (delta_content ?d)" by (simp add: given_def)
  have tx: "concat (map chunk_text example_stream) = ''Hello''"
    by (simp add: example_stream_def chunk_text_def items_def)
  note t = content_aggregation
    [of True "\<lambda>msgs. Inr example_stream" example_choice 0 example_request None
       "fst example_result" "snd example_result" "initial_aggregation example_choice" ?d]
  from t r obtain chunks where
    c: "(\<lambda>msgs. Inr example_stream) ([]::pyval list) = (Inr chunks :: error + chunk list)"
    and m: "content (fst example_result) = Some (concat (map chunk_text chunks))"
    and st: "is_open example_choice 0 \<longrightarrow>
       choice_stages (snd example_result) ! 0 =
         (choice_stages example_choice ! 0)
           \<lparr>stage_content := stage_content (choice_stages example_choice ! 0)
                @ concat (map chunk_text chunks)\<rparr>"
    by auto
  from c have ch: "chunks = example_stream" by simp
  from m ch tx have m': "content (fst example_result) = Some ''Hello''" by simp
  from st o ch tx have s': "stage_content (choice_stages (snd example_result) ! 0) = ''Hello''"
    by (simp add: example_choice_def)
  from t o' g have f: "forward_content True 0 (initial_aggregation example_choice) ?d =
          Inr ((initial_aggregation example_choice)
                 \<lparr>agg_content := agg_content (initial_aggregation example_choice)
                      @ items (delta_content ?d),
                   agg_choice := update_stage (agg_choice (initial_aggregation example_choice)) 0
                     (\<lambda>s. s\<lparr>stage_content := stage_content s @ items (delta_content ?d)\<rparr>)\<rparr>)"
    by blast
  have f': "(initial_aggregation example_choice)
                 \<lparr>agg_content := agg_content (initial_aggregation example_choice)
                      @ items (delta_content ?d),
                   agg_choice := update_stage (agg_choice (initial_aggregation example_choice)) 0
                     (\<lambda>s. s\<lparr>stage_content := stage_content s @ items (delta_content ?d)\<rparr>)\<rparr>
      = \<lparr>agg_content = ''Hel'', agg_attachments = [], agg_state = PNone, stages_map = [],
             agg_choice = \<lparr>choice_stages =
                 [\<lparr>stage_name = Some ''Call GPA Agent'', stage_content = ''Hel'',
                    stage_attachments = [], status = StageOpen\<rparr>],
               choice_attachments = [], choice_state = None\<rparr>\<rparr>"
    by (simp add: initial_aggregation_def example_choice_def update_stage_def items_def)
  from r o tx m' s' g f f' show ?thesis by simp
qed

subsection \<open>Round trip of the exported state\<close>

lemma restore_history_member:
  "restore_history msgs k ms = Inr out \<Longrightarrow> j < length ms \<Longrightarrow>
     restore_message msgs (k + j) (ms ! j) = Inr r \<Longrightarrow> set r \<subseteq> set out"
proof (induction ms arbitrary: k j out)
  case Nil
  then show ?case by simp
next
  case (Cons m ms)
  from Cons.prems(1) obtain r0 rs where
    a: "restore_message msgs k m = Inr r0"
    and b: "restore_history msgs (Suc k) ms = Inr rs"
    and o: "out = r0 @ rs"
    by (auto split: sum.splits)
  show ?case
  proof (cases j)
    case 0
    with Cons.prems(3) a o show ?thesis by simp
  next
    case (Suc j')
    with Cons.prems have "j' < length ms" "restore_message msgs (Suc k + j') (ms ! j') = Inr r"
      by simp_all
    from Cons.IH[OF b this] o show ?thesis by auto
  qed
qed

lemma restore_gpa_message:
  assumes "role msg = ASSISTANT" and "custom_content msg = Some cc" and "state cc = gpa_state inner"
  shows "restore_message msgs i msg =
     Inr [message_dict (previous_message msgs i),
          message_dict (msg\<lparr>custom_content := Some (cc\<lparr>state := inner\<rparr>)\<rparr>)]"
  using assms
  by (simp add: restore_message_def gpa_state_def IS_GPA_def GPA_MESSAGES_def dict_get_def)

lemma entry_state_message_dict:
  "entry_state (message_dict (msg\<lparr>custom_content := Some (cc\<lparr>state := inner\<rparr>)\<rparr>)) = inner"
  by (cases "content msg"; cases "stages cc"; cases "attachments cc")
     (simp_all add: entry_state_def message_dict_def custom_content_dict_def opt_item_def
        dict_get_def)

text \<open>
  Claim C1. The state that the general-purpose gateway exports when it returns is the
  wrapper \<open>{is_gpa: True, gpa_messages: S}\<close> around an inner state \<open>S\<close>. An
  assistant message of the history whose state is such a wrapper is restored by the
  message preparation of the same gateway as the preceding message followed by a copy
  of the assistant message whose state is exactly \<open>S\<close>, and this copy is part of the
  outgoing messages whenever the preparation succeeds.
\<close>

theorem state_round_trip:
  "(response strict create ch stg req ai = Inr (m, ch') \<longrightarrow>
      (\<exists>inner. choice_state ch' = Some (gpa_state inner)))
   \<and> (i < length msgs \<and> role (msgs ! i) = ASSISTANT \<and> custom_content (msgs ! i) = Some cc
        \<and> state cc = gpa_state inner \<longrightarrow>
       restore_message msgs i (msgs ! i) =
         Inr [message_dict (previous_message msgs i),
              message_dict ((msgs ! i)\<lparr>custom_content := Some (cc\<lparr>state := inner\<rparr>)\<rparr>)]
       \<and> entry_state (message_dict ((msgs ! i)\<lparr>custom_content := Some (cc\<lparr>state := inner\<rparr>)\<rparr>))
           = inner
       \<and> (\<forall>out ai'. prepare_gpa_messages \<lparr>messages = msgs\<rparr> ai' = Inr out \<longrightarrow>
             message_dict ((msgs ! i)\<lparr>custom_content := Some (cc\<lparr>state := inner\<rparr>)\<rparr>)
               \<in> set out))"
proof -
  have a: "\<exists>inner. choice_state ch' = Some (gpa_state inner)"
    if ok: "response strict create ch stg req ai = Inr (m, ch')"
  proof -
    from response_Inr[OF ok] obtain agg where "ch' = snd (finish agg)" by blast
    then show ?thesis by (auto simp: finish_def set_state_def)
  qed
  have b: "restore_message msgs i (msgs ! i) =
         Inr [message_dict (previous_message msgs i),
              message_dict ((msgs ! i)\<lparr>custom_content := Some (cc\<lparr>state := inner\<rparr>)\<rparr>)]
       \<and> entry_state (message_dict ((msgs ! i)\<lparr>custom_content := Some (cc\<lparr>state := inner\<rparr>)\<rparr>))
           = inner
       \<and> (\<forall>out ai'. prepare_gpa_messages \<lparr>messages = msgs\<rparr> ai' = Inr out \<longrightarrow>
             message_dict ((msgs ! i)\<lparr>custom_content := Some (cc\<lparr>state := inner\<rparr>)\<rparr>)
               \<in> set out)"
    if h: "i < length msgs \<and> role (msgs ! i) = ASSISTANT \<and> custom_content (msgs ! i) = Some cc
        \<and> state cc = gpa_state inner"
  proof -
    from h have r: "restore_message msgs i (msgs ! i) =
         Inr [message_dict (previous_message msgs i),
              message_dict ((msgs ! i)\<lparr>custom_content := Some (cc\<lparr>state := inner\<rparr>)\<rparr>)]"
      by (simp add: restore_gpa_message)
    have mem: "message_dict ((msgs ! i)\<lparr>custom_content := Some (cc\<lparr>state := inner\<rparr>)\<rparr>) \<in> set out"
      if p: "prepare_gpa_messages \<lparr>messages = msgs\<rparr> ai' = Inr out" for out ai'
    proof -
      from p obtain res where rh: "restore_history msgs 0 msgs = Inr res"
        and o: "out = res @ [last_user_entry (last msgs) ai']"
        by (auto simp: prepare_gpa_messages_def split: sum.splits if_splits)
      from h have "i < length msgs" by simp
      from restore_history_member[OF rh this] r o show ?thesis by auto
    qed
    from r mem entry_state_message_dict show ?thesis by blast
  qed
  from a b show ?thesis by blast
qed

theorem state_round_trip_witness:
  "response True (\<lambda>msgs. Inr example_stream) example_choice 0 example_request None
     = Inr example_result
   \<and> choice_state (snd example_result) = Some (gpa_state (PInt 2))
   \<and> (1::nat) < length (messages example_request)
   \<and> role (messages example_request ! 1) = ASSISTANT
   \<and> custom_content (messages example_request ! 1)
       = Some \<lparr>stages = None, attachments = None, state = gpa_state (PInt 1)\<rparr>
   \<and> prepare_gpa_messages example_request None =
     Inr [PDict [(''role'', PStr ''user''), (''content'', PStr ''q0'')],
          PDict [(''role'', PStr ''assistant''), (''content'', PStr ''a0''),
                 (''custom_content'', PDict [(''state'', PInt 1)])],
          PDict [(''role'', PStr ''user''), (''content'', PStr ''q1'')]]
   \<and> entry_state (PDict [(''role'', PStr ''assistant''), (''content'', PStr ''a0''),
                 (''custom_content'', PDict [(''state'', PInt 1)])]) = PInt 1"
proof -
  let ?cc = "\<lparr>stages = None, attachments = None, state = gpa_state (PInt 1)\<rparr>"
  let ?m = "\<lparr>role = ASSISTANT, content = Some ''a0'', custom_content = Some ?cc\<rparr>"
  have r: "response True (\<lambda>msgs. Inr example_stream) example_choice 0 example_request None
     = Inr (fst example_result, snd example_result)"
    by (rule example_response_pair)
  have h: "1 < length (messages example_request)
      \<and> role (messages example_request ! 1) = ASSISTANT
      \<and> custom_content (messages example_request ! 1) = Some ?cc
      \<and> state ?cc = gpa_state (PInt 1)"
    by (simp add: example_request_def)
  note t = state_round_trip
    [of True "\<lambda>msgs. Inr example_stream" example_choice 0 example_request None
       "fst example_result" "snd example_result"
       1 "messages example_request" ?cc "PInt 1"]
  from t r obtain inner where "choice_state (snd example_result) = Some (gpa_state inner)"
    by blast
  then have s: "choice_state (snd example_result) = Some (gpa_state (PInt 2))"
    by (simp add: example_result_def)
  from t h have e: "entry_state (message_dict ((messages example_request ! 1)
        \<lparr>custom_content := Some (?cc\<lparr>state := PInt 1\<rparr>)\<rparr>)) = PInt 1"
    by blast
  have d: "message_dict ((messages example_request ! 1)
        \<lparr>custom_content := Some (?cc\<lparr>state := PInt 1\<rparr>)\<rparr>)
      = PDict [(''role'', PStr ''assistant''), (''content'', PStr ''a0''),
                 (''custom_content'', PDict [(''state'', PInt 1)])]"
    by (simp add: example_request_def message_dict_def custom_content_dict_def opt_item_def
        role_val_def)
  from r s h e d example_messages show ?thesis by simp
qed

subsection \<open>Dispatch\<close>

text \<open>
  Claim C6. A coordination request whose agent name is neither \<open>GPA\<close> nor \<open>UMS\<close>
  fails with the unknown-agent error, whatever the gateways, the stream and the
  response surface are: no gateway is called for it. For \<open>GPA\<close> the result is that
  of the general-purpose gateway, for \<open>UMS\<close> that of the specialized-service gateway,
  each called with the request's additional instructions.
\<close>

theorem dispatch_by_agent_name:
  "(agent_name cr \<noteq> GPA \<and> agent_name cr \<noteq> UMS \<longrightarrow>
      (\<exists>n. agent_name cr = OtherAgent n \<and>
         (\<forall>strict create ums_response ch stg req.
            handle_coordination_request strict create ums_response cr ch stg req
              = Inl (ValueError (''Agent Name '' @ n @ '' is unknown'')))))
   \<and> (agent_name cr = GPA \<longrightarrow>
        handle_coordination_request strict create ums_response cr ch stg req
          = response strict create ch stg req (additional_instructions cr))
   \<and> (agent_name cr = UMS \<longrightarrow>
        handle_coordination_request strict create ums_response cr ch stg req
          = ums_response ch stg req (additional_instructions cr))"
  by (cases "agent_name cr") (simp_all add: handle_coordination_request_def)

theorem dispatch_by_agent_name_witness:
  "agent_name \<lparr>agent_name = OtherAgent ''Search'', additional_instructions = None\<rparr> \<noteq> GPA
   \<and> agent_name \<lparr>agent_name = OtherAgent ''Search'', additional_instructions = None\<rparr> \<noteq> UMS
   \<and> handle_coordination_request True (\<lambda>msgs. Inr example_stream)
        (\<lambda>ch stg req ai. Inr (\<lparr>role = ASSISTANT, content = Some ''ok'', custom_content = None\<rparr>, ch))
        \<lparr>agent_name = OtherAgent ''Search'', additional_instructions = None\<rparr>
        example_choice 0 example_request
      = Inl (ValueError ''Agent Name Search is unknown'')
   \<and> handle_coordination_request True (\<lambda>msgs. Inr example_stream)
        (\<lambda>ch stg req ai. Inr (\<lparr>role = ASSISTANT, content = Some ''ok'', custom_content = None\<rparr>, ch))
        \<lparr>agent_name = UMS, additional_instructions = None\<rparr>
        example_choice 0 example_request
      = Inr (\<lparr>role = ASSISTANT, content = Some ''ok'', custom_content = None\<rparr>, example_choice)
   \<and> handle_coordination_request True (\<lambda>msgs. Inr example_stream)
        (\<lambda>ch stg req ai. Inr (\<lparr>role = ASSISTANT, content = Some ''ok'', custom_content = None\<rparr>, ch))
        \<lparr>agent_name = GPA, additional_instructions = None\<rparr>
        example_choice 0 example_request
      = Inr example_result"
proof -
  let ?ums = "\<lambda>ch stg req ai.
     (Inr (\<lparr>role = ASSISTANT, content = Some ''ok'', custom_content = None\<rparr>, ch)
        :: error + message \<times> choice)"
  let ?o = "\<lparr>agent_name = OtherAgent ''Search'', additional_instructions = None\<rparr>"
  let ?u = "\<lparr>agent_name = UMS, additional_instructions = None\<rparr>"
  let ?g = "\<lparr>agent_name = GPA, additional_instructions = None\<rparr>"
  have n: "agent_name ?o \<noteq> GPA \<and> agent_name ?o \<noteq> UMS" by simp
  from dispatch_by_agent_name [of ?o] n obtain n' where n': "agent_name ?o = OtherAgent n'"
    and e: "\<forall>strict create ums_response ch stg req.
            handle_coordination_request strict create ums_response ?o ch stg req
              = Inl (ValueError (''Agent Name '' @ n' @ '' is unknown''))"
    by blast
  from n' have "n' = ''Search''" by simp
  with e have a: "handle_coordination_request True (\<lambda>msgs. Inr example_stream) ?ums ?o
        example_choice 0 example_request = Inl (ValueError ''Agent Name Search is unknown'')"
    by simp
  from dispatch_by_agent_name
    [of ?u True "\<lambda>msgs. Inr example_stream" ?ums example_choice 0 example_request]
  have b: "handle_coordination_request True (\<lambda>msgs. Inr example_stream) ?ums ?u
        example_choice 0 example_request
      = Inr (\<lparr>role = ASSISTANT, content = Some ''ok'', custom_content = None\<rparr>, example_choice)"
    by simp
  from dispatch_by_agent_name
    [of ?g True "\<lambda>msgs. Inr example_stream" ?ums example_choice 0 example_request]
  have c: "handle_coordination_request True (\<lambda>msgs. Inr example_stream) ?ums ?g
        example_choice 0 example_request = Inr example_result"
    by (simp add: example_response_pair)
  from n a b c show ?thesis by simp
qed

end
